theory Spec2Isabelle
  imports Main "HOL-Library.Sublist"
begin

text \<open>
  The label watcher of the repository (\<open>label_watchdog_00.py\<close>): the retry ledger that
  reads and writes the retry count in a file name, the stability probe, the lock marker
  and the controller that files a label as processed, scheduled for retry or stuck. The
  definitions follow the Python source function by function. What the source leaves to the
  operating system (the sizes a file shows while it is being written, the outcome of the
  extraction script) is an argument of the model.
\<close>

section \<open>Python strings\<close>

text \<open>
  A Python \<open>str\<close> is modelled as a \<open>string\<close> whose characters are read as the code
  points below 256. Code points above that range are outside the model. The interpreter's
  cap on the number of decimal digits that \<open>int()\<close> and \<open>str()\<close> convert (4300 by
  default) is out of reach for a file name and is not modelled either.
\<close>

datatype error = OSError | ValueError | IndexError | RuntimeError | KeyboardInterrupt

text \<open>\<open>str.lower()\<close> on one code point below 256.\<close>

definition lower_char :: "char \<Rightarrow> char" where
  "lower_char c =
     (let n = (of_char c :: nat)
      in if (65 \<le> n \<and> n \<le> 90) \<or> (192 \<le> n \<and> n \<le> 222 \<and> n \<noteq> 215)
         then char_of (n + 32) else c)"

definition lower :: "string \<Rightarrow> string" where
  "lower s = map lower_char s"

text \<open>\<open>sub in s\<close> for strings.\<close>

fun contains :: "string \<Rightarrow> string \<Rightarrow> bool" where
  "contains sub [] = (sub = [])"
| "contains sub (c # cs) = (prefix sub (c # cs) \<or> contains sub cs)"

text \<open>
  \<open>s.split(sep)\<close> for a non-empty separator: the pieces between the occurrences of
  \<open>sep\<close>, found from the left without overlap. \<open>cur\<close> holds the piece being read,
  reversed.
\<close>

function split_from :: "string \<Rightarrow> string \<Rightarrow> string \<Rightarrow> string list" where
  "split_from sep cur [] = [rev cur]"
| "split_from sep cur (c # cs) =
     (if prefix sep (c # cs) then rev cur # split_from sep [] (drop (length sep - 1) cs)
      else split_from sep (c # cur) cs)"
  by pat_completeness auto
termination
  by (relation "measure (\<lambda>(sep, cur, s). length s)") auto

definition split :: "string \<Rightarrow> string \<Rightarrow> error + string list" where
  "split s sep = (if sep = [] then Inl ValueError else Inr (split_from sep [] s))"

text \<open>Indexing a list with \<open>[0]\<close> and \<open>[-1]\<close>; both raise on the empty list.\<close>

definition first_item :: "'a list \<Rightarrow> error + 'a" where
  "first_item xs = (case xs of [] \<Rightarrow> Inl IndexError | x # _ \<Rightarrow> Inr x)"

definition last_item :: "'a list \<Rightarrow> error + 'a" where
  "last_item xs = (case xs of [] \<Rightarrow> Inl IndexError | _ # _ \<Rightarrow> Inr (last xs))"

text \<open>
  \<open>int(s)\<close> in base 10: white space is stripped at both ends, then comes an optional
  sign, then decimal digits that may be grouped by single underscores. Anything else is
  a \<open>ValueError\<close>, here \<open>None\<close>. The white space that \<open>int\<close> strips is the ASCII white
  space together with the code points 133 and 160.
\<close>

definition is_space :: "char \<Rightarrow> bool" where
  "is_space c = ((of_char c :: nat) \<in> {9, 10, 11, 12, 13, 32, 133, 160})"

definition is_digit :: "char \<Rightarrow> bool" where
  "is_digit c = (48 \<le> (of_char c :: nat) \<and> (of_char c :: nat) \<le> 57)"

definition digit_val :: "char \<Rightarrow> nat" where
  "digit_val c = of_char c - 48"

definition strip :: "string \<Rightarrow> string" where
  "strip s = rev (dropWhile is_space (rev (dropWhile is_space s)))"

text \<open>\<open>prev\<close> tells whether the character just read was a digit.\<close>

fun parse_digits :: "bool \<Rightarrow> nat \<Rightarrow> string \<Rightarrow> nat option" where
  "parse_digits prev acc [] = (if prev then Some acc else None)"
| "parse_digits prev acc (c # cs) =
     (if is_digit c then parse_digits True (10 * acc + digit_val c) cs
      else if c = CHR ''_'' \<and> prev then parse_digits False acc cs
      else None)"

definition py_int :: "string \<Rightarrow> int option" where
  "py_int s =
     (case strip s of
        [] \<Rightarrow> None
      | c # cs \<Rightarrow>
          if c = CHR ''-'' then map_option (\<lambda>n. - int n) (parse_digits False 0 cs)
          else if c = CHR ''+'' then map_option int (parse_digits False 0 cs)
          else map_option int (parse_digits False 0 (c # cs)))"

text \<open>\<open>str(n)\<close>, as an f-string prints an integer.\<close>

fun str_nat :: "nat \<Rightarrow> string" where
  "str_nat n =
     (if n < 10 then [char_of (48 + n)]
      else str_nat (n div 10) @ [char_of (48 + n mod 10)])"

declare str_nat.simps [simp del]

definition py_str :: "int \<Rightarrow> string" where
  "py_str i = (if i < 0 then CHR ''-'' # str_nat (nat (- i)) else str_nat (nat i))"

section \<open>Paths\<close>

text \<open>
  A \<open>pathlib\<close> path: the anchor (drive and root) and the components below it. A
  component holds no separator and no drive letter. The watcher runs on Windows, where
  \<open>pathlib\<close> compares paths after folding them to lower case.
\<close>

record path =
  anchor :: string
  segs :: "string list"

definition name :: "path \<Rightarrow> string" where
  "name p = (if segs p = [] then [] else last (segs p))"

text \<open>
  \<open>s.rfind(c)\<close>: the last index of \<open>c\<close>, or \<open>-1\<close>. The suffix of a path starts at
  the last dot of its name, unless that dot is the first or the last character of the
  name; the stem is the name without the suffix. This is the rule of \<open>pathlib\<close> as
  Python 3.11 has it.
\<close>

fun rfind :: "string \<Rightarrow> char \<Rightarrow> int" where
  "rfind [] c = - 1"
| "rfind (x # xs) c =
     (let r = rfind xs c in if 0 \<le> r then r + 1 else if x = c then 0 else - 1)"

definition suffix_of :: "path \<Rightarrow> string" where
  "suffix_of p =
     (let nm = name p; i = rfind nm CHR ''.''
      in if 0 < i \<and> i < int (length nm) - 1 then drop (nat i) nm else [])"

definition stem :: "path \<Rightarrow> string" where
  "stem p =
     (let nm = name p; i = rfind nm CHR ''.''
      in if 0 < i \<and> i < int (length nm) - 1 then take (nat i) nm else nm)"

text \<open>
  \<open>with_name\<close> and \<open>with_suffix\<close> refuse a path that has no name. Their other checks
  (a separator or a drive in the new name, a suffix that does not start with a dot)
  cannot fire on the arguments this program builds from components.
\<close>

definition with_name :: "path \<Rightarrow> string \<Rightarrow> error + path" where
  "with_name p nm =
     (if name p = [] \<or> nm = [] then Inl ValueError
      else Inr (p\<lparr>segs := butlast (segs p) @ [nm]\<rparr>))"

definition with_suffix :: "path \<Rightarrow> string \<Rightarrow> error + path" where
  "with_suffix p sfx =
     (if (sfx \<noteq> [] \<and> \<not> prefix ''.'' sfx) \<or> sfx = ''.'' then Inl ValueError
      else if name p = [] then Inl ValueError
      else Inr (p\<lparr>segs := butlast (segs p) @ [stem p @ sfx]\<rparr>))"

text \<open>\<open>folder / nm\<close> for a component \<open>nm\<close>; an empty one leaves the folder as it is.\<close>

definition joinpath :: "path \<Rightarrow> string \<Rightarrow> path" where
  "joinpath folder nm = (if nm = [] then folder else folder\<lparr>segs := segs folder @ [nm]\<rparr>)"

text \<open>\<open>folder in p.parents\<close>: the folder is a proper ancestor of \<open>p\<close>.\<close>

definition in_parents :: "path \<Rightarrow> path \<Rightarrow> bool" where
  "in_parents folder p =
     (lower (anchor folder) = lower (anchor p) \<and>
      length (segs folder) < length (segs p) \<and>
      prefix (map lower (segs folder)) (map lower (segs p)))"

section \<open>Configuration\<close>

definition WATCH_FOLDER :: path where
  "WATCH_FOLDER =
     \<lparr>anchor = [CHR ''C'', CHR '':'', CHR 0x5C],
      segs = [''Users'', ''SONIARN'',
              ''OneDrive - Mercedes-Benz (corpdir.onmicrosoft.com)'',
              ''DWT_ExpiryVision - Documents'', ''Labels'']\<rparr>"

definition PROCESSED_FOLDER :: path where
  "PROCESSED_FOLDER = joinpath WATCH_FOLDER ''Processed''"

definition RETRY_FOLDER :: path where
  "RETRY_FOLDER = joinpath WATCH_FOLDER ''Retry''"

definition SUPPORTED_EXTENSIONS :: "string set" where
  "SUPPORTED_EXTENSIONS = {''.jpg'', ''.jpeg'', ''.png''}"

definition MAX_RETRIES :: int where
  "MAX_RETRIES = 3"

definition LOCK_SUFFIX :: string where
  "LOCK_SUFFIX = ''.lock''"

definition is_image_file :: "path \<Rightarrow> bool" where
  "is_image_file p = (lower (suffix_of p) \<in> SUPPORTED_EXTENSIONS)"

section \<open>Retry ledger\<close>

definition get_retry_count :: "path \<Rightarrow> error + int" where
  "get_retry_count p =
     (if contains ''__retry'' (stem p) then
        (case split (stem p) ''__retry'' of
           Inl e \<Rightarrow> Inl e
         | Inr parts \<Rightarrow>
             (case last_item parts of
                Inl e \<Rightarrow> Inl e
              | Inr payload \<Rightarrow>
                  (case py_int payload of None \<Rightarrow> Inr 0 | Some n \<Rightarrow> Inr n)))
      else Inr 0)"

definition increment_retry :: "path \<Rightarrow> error + path" where
  "increment_retry p =
     (case get_retry_count p of
        Inl e \<Rightarrow> Inl e
      | Inr c \<Rightarrow>
          (let count = c + 1
           in case split (stem p) ''__retry'' of
                Inl e \<Rightarrow> Inl e
              | Inr parts \<Rightarrow>
                  (case first_item parts of
                     Inl e \<Rightarrow> Inl e
                   | Inr base \<Rightarrow>
                       with_name p (base @ ''__retry'' @ py_str count @ suffix_of p))))"

text \<open>
  \<open>increment_retry\<close> applied \<open>n\<close> times to its own output, stopping at the first
  error.
\<close>

fun retry_chain :: "nat \<Rightarrow> path \<Rightarrow> error + path" where
  "retry_chain 0 p = Inr p"
| "retry_chain (Suc n) p =
     (case retry_chain n p of Inl e \<Rightarrow> Inl e | Inr q \<Rightarrow> increment_retry q)"

text \<open>The name that carries the count \<open>k\<close>: stem, marker, count, suffix.\<close>

abbreviation retry_named :: "path \<Rightarrow> int \<Rightarrow> path" where
  "retry_named p k \<equiv>
     p\<lparr>segs := butlast (segs p) @ [stem p @ ''__retry'' @ py_str k @ suffix_of p]\<rparr>"

section \<open>Stability prober\<close>

text \<open>
  \<open>stat p k\<close> is what \<open>p.stat().st_size\<close> gives at the sample number \<open>k\<close>, one
  second after the sample before it: the size in bytes, or the error that \<open>stat\<close>
  raises, as it does once the file is gone. The loop runs \<open>n\<close> more rounds after \<open>k\<close>
  samples. Beside the result it returns the number of samples taken.
\<close>

fun wait_loop :: "(path \<Rightarrow> nat \<Rightarrow> error + nat) \<Rightarrow> path \<Rightarrow> nat \<Rightarrow> nat \<Rightarrow> int
    \<Rightarrow> (error + bool) \<times> nat" where
  "wait_loop stat p 0 k last_size = (Inr False, k)"
| "wait_loop stat p (Suc n) k last_size =
     (case stat p k of
        Inl e \<Rightarrow> (Inl e, Suc k)
      | Inr current_size \<Rightarrow>
          if int current_size = last_size then (Inr True, Suc k)
          else wait_loop stat p n (Suc k) (int current_size))"

definition wait_until_file_stable :: "(path \<Rightarrow> nat \<Rightarrow> error + nat) \<Rightarrow> path \<Rightarrow> int
    \<Rightarrow> (error + bool) \<times> nat" where
  "wait_until_file_stable stat p timeout = wait_loop stat p (nat timeout) 0 (- 1)"

section \<open>The folder and the console\<close>

text \<open>
  The state the watcher acts on: the files that exist and the lines printed so far, one
  constructor for each \<open>print\<close> of the source. Two spellings of a name are two files.
\<close>

datatype msg =
    NewLabel string
  | NotStable string
  | Locked string
  | Unexpected error
  | Running
  | ProcessedTo path
  | Failed int
  | Stderr string
  | MovedToRetry path
  | MaxRetries string

record world =
  files :: "path set"
  out :: "msg list"

definition print :: "msg \<Rightarrow> world \<Rightarrow> world" where
  "print m w = w\<lparr>out := out w @ [m]\<rparr>"

text \<open>
  \<open>shutil.move\<close> of a file: it fails when the source is missing and replaces the
  destination otherwise. Failures of the disk itself are not modelled.
\<close>

definition move :: "path \<Rightarrow> path \<Rightarrow> world \<Rightarrow> error + world" where
  "move src dst w =
     (if src \<in> files w then Inr (w\<lparr>files := insert dst (files w - {src})\<rparr>)
      else Inl OSError)"

section \<open>Lock manager\<close>

text \<open>
  \<open>with file_lock(p): body\<close>. The marker is created by \<open>touch(exist_ok=False)\<close>; the
  \<open>finally\<close> clause runs however the body ends.
\<close>

definition file_lock :: "path \<Rightarrow> (world \<Rightarrow> (error + unit) \<times> world) \<Rightarrow> world
    \<Rightarrow> (error + unit) \<times> world" where
  "file_lock p body w =
     (case with_suffix p (suffix_of p @ LOCK_SUFFIX) of
        Inl e \<Rightarrow> (Inl e, w)
      | Inr lock_file \<Rightarrow>
          if lock_file \<in> files w then (Inl RuntimeError, w)
          else
            (case body (w\<lparr>files := insert lock_file (files w)\<rparr>) of
               (r, w') \<Rightarrow>
                 (r, if lock_file \<in> files w' then w'\<lparr>files := files w' - {lock_file}\<rparr>
                     else w')))"

text \<open>The marker of a path: its sibling with \<open>.lock\<close> appended to the name.\<close>

abbreviation marker :: "path \<Rightarrow> path" where
  "marker p \<equiv> p\<lparr>segs := butlast (segs p) @ [name p @ LOCK_SUFFIX]\<rparr>"

section \<open>Pipeline controller\<close>

text \<open>
  \<open>run p\<close> is what \<open>subprocess.run\<close> does for the file \<open>p\<close>: it raises, or it returns
  the exit status and the error stream of the extraction script.
\<close>

record completed_process =
  returncode :: int
  stderr :: string

definition process_file :: "(path \<Rightarrow> error + completed_process) \<Rightarrow> path \<Rightarrow> world
    \<Rightarrow> (error + unit) \<times> world" where
  "process_file run p w0 =
     (let w = print Running w0
      in case run p of
           Inl e \<Rightarrow> (Inl e, w)
         | Inr result \<Rightarrow>
             if returncode result = 0 then
               (let destination = joinpath PROCESSED_FOLDER (name p)
                in case move p destination w of
                     Inl e \<Rightarrow> (Inl e, w)
                   | Inr w1 \<Rightarrow> (Inr (), print (ProcessedTo destination) w1))
             else
               (case get_retry_count p of
                  Inl e \<Rightarrow> (Inl e, w)
                | Inr retry_count \<Rightarrow>
                    (let w1 = print (Stderr (stderr result)) (print (Failed (retry_count + 1)) w)
                     in if retry_count < MAX_RETRIES then
                          (case increment_retry p of
                             Inl e \<Rightarrow> (Inl e, w1)
                           | Inr renamed \<Rightarrow>
                               (let new_path = joinpath RETRY_FOLDER (name renamed)
                                in case move p new_path w1 of
                                     Inl e \<Rightarrow> (Inl e, w1)
                                   | Inr w2 \<Rightarrow> (Inr (), print (MovedToRetry new_path) w2)))
                        else (Inr (), print (MaxRetries (name p)) w1))))"

record event =
  is_directory :: bool
  src_path :: path

text \<open>
  \<open>except RuntimeError\<close> comes first, then \<open>except Exception\<close>, which lets a
  \<open>KeyboardInterrupt\<close> through. The stability probe runs before the \<open>try\<close>.
\<close>

definition on_created :: "(path \<Rightarrow> nat \<Rightarrow> error + nat) \<Rightarrow> (path \<Rightarrow> error + completed_process)
    \<Rightarrow> event \<Rightarrow> world \<Rightarrow> (error + unit) \<times> world" where
  "on_created stat run ev w =
     (if is_directory ev then (Inr (), w)
      else
        (let p = src_path ev
         in if in_parents PROCESSED_FOLDER p \<or> in_parents RETRY_FOLDER p then (Inr (), w)
            else if \<not> is_image_file p then (Inr (), w)
            else
              (let w1 = print (NewLabel (name p)) w
               in case fst (wait_until_file_stable stat p 10) of
                    Inl e \<Rightarrow> (Inl e, w1)
                  | Inr False \<Rightarrow> (Inr (), print (NotStable (name p)) w1)
                  | Inr True \<Rightarrow>
                      (case file_lock p (process_file run p) w1 of
                         (Inr u, w2) \<Rightarrow> (Inr (), w2)
                       | (Inl e, w2) \<Rightarrow>
                           if e = RuntimeError then (Inr (), print (Locked (name p)) w2)
                           else if e = KeyboardInterrupt then (Inl e, w2)
                           else (Inr (), print (Unexpected e) w2)))))"

text \<open>The events that get past the three guards at the head of \<open>on_created\<close>.\<close>

abbreviation accepted :: "event \<Rightarrow> bool" where
  "accepted ev \<equiv>
     \<not> is_directory ev \<and> \<not> in_parents PROCESSED_FOLDER (src_path ev) \<and>
     \<not> in_parents RETRY_FOLDER (src_path ev) \<and> is_image_file (src_path ev)"

section \<open>Sample inputs\<close>

text \<open>
  Concrete files, size readings and extraction outcomes on which the theorems below are
  evaluated: a file of constant size, one that stops growing at its third sample, one
  that grows at every sample, one that is removed after its first sample; a script that
  succeeds, one that fails and a call that raises; a body of a \<open>with\<close> block that
  deletes the marker itself and raises.
\<close>

definition created :: "string \<Rightarrow> event" where
  "created nm = \<lparr>is_directory = False, src_path = joinpath WATCH_FOLDER nm\<rparr>"

definition folder_with :: "string \<Rightarrow> world" where
  "folder_with nm = \<lparr>files = {joinpath WATCH_FOLDER nm}, out = []\<rparr>"

definition locked_folder_with :: "string \<Rightarrow> world" where
  "locked_folder_with nm =
     \<lparr>files = {joinpath WATCH_FOLDER nm, joinpath WATCH_FOLDER (nm @ LOCK_SUFFIX)}, out = []\<rparr>"

definition steady :: "path \<Rightarrow> nat \<Rightarrow> error + nat" where
  "steady p k = Inr 100"

definition settling :: "path \<Rightarrow> nat \<Rightarrow> error + nat" where
  "settling p k = Inr (100 * min k 2)"

definition growing :: "path \<Rightarrow> nat \<Rightarrow> error + nat" where
  "growing p k = Inr k"

definition removed_after_first :: "path \<Rightarrow> nat \<Rightarrow> error + nat" where
  "removed_after_first p k = (if k = 0 then Inr 100 else Inl OSError)"

definition run_ok :: "path \<Rightarrow> error + completed_process" where
  "run_ok p = Inr \<lparr>returncode = 0, stderr = []\<rparr>"

definition run_fail :: "path \<Rightarrow> error + completed_process" where
  "run_fail p = Inr \<lparr>returncode = 1, stderr = ''failed''\<rparr>"

definition removes_marker :: "path \<Rightarrow> world \<Rightarrow> (error + unit) \<times> world" where
  "removes_marker p w = (Inl OSError, w\<lparr>files := files w - {marker p}\<rparr>)"

definition run_raises :: "path \<Rightarrow> error + completed_process" where
  "run_raises p = Inl OSError"

section \<open>Facts about strings and paths\<close>

lemma split_from_nonempty: "split_from sep cur s \<noteq> []"
  by (induction sep cur s rule: split_from.induct) auto

lemma retry_no_border:
  "prefix ''__retry'' (u @ ''__retry'' @ t) \<Longrightarrow> u \<noteq> [] \<Longrightarrow> prefix ''__retry'' u"
  by (auto simp: prefix_append Cons_eq_append_conv)

lemma prefix_retry_split: "prefix ''__retry'' u \<Longrightarrow> \<exists>v. u = ''__retry'' @ v"
  by (auto simp: prefix_def)

lemma split_from_no_sep:
  "\<not> contains sep s \<Longrightarrow> split_from sep cur s = [rev cur @ s]"
  by (induction sep cur s rule: split_from.induct) auto

lemma contains_prefix: "prefix sep s \<Longrightarrow> contains sep s"
  by (cases s) auto

lemma contains_append_sep: "contains sep (b @ sep @ d)"
  by (induction b) (auto simp: contains_prefix)

lemma split_from_skip:
  "\<not> prefix sep (c # cs) \<Longrightarrow> split_from sep cur (c # cs) = split_from sep (c # cur) cs"
  by simp

lemma split_from_cut:
  "prefix sep (c # cs) \<Longrightarrow>
   split_from sep cur (c # cs) = rev cur # split_from sep [] (drop (length sep - 1) cs)"
  by simp

lemma split_from_marker:
  "\<not> contains ''__retry'' s \<Longrightarrow>
   split_from ''__retry'' cur (s @ ''__retry'' @ t) = (rev cur @ s) # split_from ''__retry'' [] t"
proof (induction s arbitrary: cur)
  case Nil
  then show ?case by simp
next
  case (Cons c s)
  from Cons.prems have np: "\<not> prefix ''__retry'' (c # s)" and nc: "\<not> contains ''__retry'' s"
    by auto
  have "\<not> prefix ''__retry'' ((c # s) @ ''__retry'' @ t)"
    using retry_no_border [of "c # s" t] np by blast
  then have "split_from ''__retry'' cur ((c # s) @ ''__retry'' @ t)
      = split_from ''__retry'' (c # cur) (s @ ''__retry'' @ t)"
    using split_from_skip [of "''__retry''" c "s @ ''__retry'' @ t" cur] by simp
  with Cons.IH [OF nc, of "c # cur"] show ?case by simp
qed

lemma last_split_from_marker:
  "last (split_from ''__retry'' cur (b @ ''__retry'' @ d)) = last (split_from ''__retry'' [] d)"
proof (induction b arbitrary: cur rule: length_induct)
  case (1 b)
  show ?case
  proof (cases b)
    case Nil
    then show ?thesis by (simp add: split_from_nonempty)
  next
    case (Cons c cs)
    show ?thesis
    proof (cases "prefix ''__retry'' (b @ ''__retry'' @ d)")
      case True
      then have "prefix ''__retry'' b" using retry_no_border [of b d] Cons by blast
      then obtain v where v: "b = ''__retry'' @ v" using prefix_retry_split by blast
      then have "length v < length b" by simp
      with 1 have "last (split_from ''__retry'' [] (v @ ''__retry'' @ d)) = last (split_from ''__retry'' [] d)"
        by blast
      then show ?thesis using v by (simp add: split_from_nonempty)
    next
      case False
      then have "split_from ''__retry'' cur (b @ ''__retry'' @ d) =
                 split_from ''__retry'' (c # cur) (cs @ ''__retry'' @ d)"
        using Cons split_from_skip [of "''__retry''" c "cs @ ''__retry'' @ d" cur] by simp
      moreover have "length cs < length b" using Cons by simp
      ultimately show ?thesis using 1 by metis
    qed
  qed
qed

lemma digit_char: "d < 10 \<Longrightarrow> is_digit (char_of (48 + d :: nat))"
  by (simp add: is_digit_def)

lemma digit_char_val: "d < 10 \<Longrightarrow> digit_val (char_of (48 + d :: nat)) = d"
  by (simp add: digit_val_def)

lemma str_nat_small: "n < 10 \<Longrightarrow> str_nat n = [char_of (48 + n)]"
  by (subst str_nat.simps) simp

lemma str_nat_large:
  "\<not> n < 10 \<Longrightarrow> str_nat n = str_nat (n div 10) @ [char_of (48 + n mod 10)]"
  by (subst str_nat.simps) simp

lemma str_nat_digits: "c \<in> set (str_nat n) \<Longrightarrow> is_digit c"
proof (induction n arbitrary: c rule: str_nat.induct)
  case (1 n)
  show ?case
  proof (cases "n < 10")
    case True
    with "1.prems" show ?thesis by (simp add: str_nat_small digit_char)
  next
    case False
    with "1.prems" have "c \<in> set (str_nat (n div 10)) \<or> c = char_of (48 + n mod 10)"
      by (auto simp add: str_nat_large)
    moreover have "is_digit (char_of (48 + n mod 10))" by (rule digit_char) simp
    ultimately show ?thesis using "1.IH" [OF False] by blast
  qed
qed

lemma str_nat_nonempty: "str_nat n \<noteq> []"
  by (cases "n < 10") (simp_all add: str_nat_small str_nat_large)

lemma parse_digits_append:
  "\<forall>c \<in> set ds. is_digit c \<Longrightarrow> ds \<noteq> [] \<Longrightarrow>
   parse_digits prev acc (ds @ rest) =
   parse_digits True (foldl (\<lambda>a c. 10 * a + digit_val c) acc ds) rest"
proof (induction ds arbitrary: prev acc)
  case Nil
  then show ?case by simp
next
  case (Cons d ds)
  show ?case
  proof (cases ds)
    case Nil
    with Cons.prems show ?thesis by simp
  next
    case (Cons e es)
    then have "ds \<noteq> []" by simp
    with Cons.IH [of True "10 * acc + digit_val d"] Cons.prems show ?thesis by simp
  qed
qed

lemma str_nat_value: "foldl (\<lambda>a c. 10 * a + digit_val c) 0 (str_nat n) = n"
proof (induction n rule: str_nat.induct)
  case (1 n)
  show ?case
  proof (cases "n < 10")
    case True
    then show ?thesis by (simp add: str_nat_small digit_char_val)
  next
    case False
    have "digit_val (char_of (48 + n mod 10)) = n mod 10" by (rule digit_char_val) simp
    then show ?thesis using "1.IH" [OF False] False by (simp add: str_nat_large)
  qed
qed

lemma parse_digits_str_nat: "parse_digits False 0 (str_nat n) = Some n"
proof -
  have "parse_digits False 0 (str_nat n @ []) =
        parse_digits True (foldl (\<lambda>a c. 10 * a + digit_val c) 0 (str_nat n)) []"
    by (rule parse_digits_append) (auto simp: str_nat_digits str_nat_nonempty)
  then show ?thesis by (simp add: str_nat_value)
qed

lemma digit_not_space: "is_digit c \<Longrightarrow> \<not> is_space c"
  by (auto simp: is_digit_def is_space_def)

lemma strip_id: "s \<noteq> [] \<Longrightarrow> \<not> is_space (hd s) \<Longrightarrow> \<not> is_space (last s) \<Longrightarrow> strip s = s"
proof -
  assume s: "s \<noteq> []" and h: "\<not> is_space (hd s)" and l: "\<not> is_space (last s)"
  from s h have "dropWhile is_space s = s" by (cases s) auto
  moreover from s l have "dropWhile is_space (rev s) = rev s"
    by (cases "rev s") (auto simp: last_rev hd_rev)
  ultimately show ?thesis by (simp add: strip_def)
qed

lemma strip_str_nat: "strip (str_nat n) = str_nat n"
proof (rule strip_id)
  show "str_nat n \<noteq> []" by (rule str_nat_nonempty)
  have "hd (str_nat n) \<in> set (str_nat n)" by (simp add: str_nat_nonempty)
  then show "\<not> is_space (hd (str_nat n))" using str_nat_digits digit_not_space by blast
  have "last (str_nat n) \<in> set (str_nat n)" by (simp add: str_nat_nonempty)
  then show "\<not> is_space (last (str_nat n))" using str_nat_digits digit_not_space by blast
qed

lemma py_int_str_nat: "py_int (str_nat n) = Some (int n)"
proof -
  obtain c cs where cs: "str_nat n = c # cs" using str_nat_nonempty by (cases "str_nat n") auto
  then have "is_digit c" using str_nat_digits [of c n] by simp
  then have ns: "c \<noteq> CHR ''-''" "c \<noteq> CHR ''+''" by (auto simp: is_digit_def)
  have "strip (c # cs) = c # cs" using strip_str_nat [of n] cs by simp
  moreover have "parse_digits False 0 (c # cs) = Some n" using parse_digits_str_nat [of n] cs by simp
  ultimately show ?thesis unfolding py_int_def cs using ns by simp
qed

lemma py_int_py_str: "py_int (py_str i) = Some i"
proof (cases "i < 0")
  case True
  let ?d = "str_nat (nat (- i))"
  have "last ?d \<in> set ?d" by (simp add: str_nat_nonempty)
  then have "\<not> is_space (last ?d)" using str_nat_digits digit_not_space by blast
  then have "strip (CHR ''-'' # ?d) = CHR ''-'' # ?d"
    by (intro strip_id) (simp_all add: str_nat_nonempty is_space_def)
  then show ?thesis using True by (simp add: py_int_def py_str_def parse_digits_str_nat)
next
  case False
  then show ?thesis by (simp add: py_str_def py_int_str_nat)
qed

lemma contains_set: "contains sep s \<Longrightarrow> set sep \<subseteq> set s"
proof (induction s)
  case Nil
  then show ?case by simp
next
  case (Cons a s)
  from Cons.prems have "prefix sep (a # s) \<or> contains sep s" by simp
  then show ?case
  proof
    assume "prefix sep (a # s)"
    then show ?thesis by (rule set_mono_prefix)
  next
    assume "contains sep s"
    then have "set sep \<subseteq> set s" by (rule Cons.IH)
    then show ?thesis by auto
  qed
qed

lemma py_str_chars: "c \<in> set (py_str i) \<Longrightarrow> is_digit c \<or> c = CHR ''-''"
  by (auto simp: py_str_def str_nat_digits split: if_splits)

lemma py_str_no_marker: "\<not> contains ''__retry'' (py_str i)"
proof
  assume "contains ''__retry'' (py_str i)"
  then have "set ''__retry'' \<subseteq> set (py_str i)" by (rule contains_set)
  then have "CHR ''r'' \<in> set (py_str i)" by simp
  then have "is_digit CHR ''r'' \<or> CHR ''r'' = CHR ''-''" by (rule py_str_chars)
  then show False by (simp add: is_digit_def)
qed

lemma py_str_no_dot: "CHR ''.'' \<notin> set (py_str i)"
proof
  assume "CHR ''.'' \<in> set (py_str i)"
  then have "is_digit CHR ''.'' \<or> CHR ''.'' = CHR ''-''" by (rule py_str_chars)
  then show False by (simp add: is_digit_def)
qed

lemma rfind_bounds: "- 1 \<le> rfind s c \<and> rfind s c < int (length s)"
  by (induction s) (auto simp: Let_def)

lemma rfind_neg_iff: "rfind s c < 0 \<longleftrightarrow> c \<notin> set s"
proof (induction s)
  case Nil
  then show ?case by simp
next
  case (Cons a s)
  then show ?case using rfind_bounds [of s c] by (auto simp: Let_def)
qed

lemma rfind_append_notin: "c \<notin> set t \<Longrightarrow> rfind (s @ t) c = rfind s c"
proof (induction s)
  case Nil
  then have "rfind t c < 0" by (simp add: rfind_neg_iff)
  then show ?case using rfind_bounds [of t c] by simp
next
  case (Cons a s)
  then show ?case by (simp add: Let_def)
qed

lemma rfind_at: "c \<notin> set r \<Longrightarrow> rfind (b @ c # r) c = int (length b)"
proof (induction b)
  case Nil
  then have "rfind r c < 0" by (simp add: rfind_neg_iff)
  then show ?case by (simp add: Let_def)
next
  case (Cons a b)
  then show ?case by (simp add: Let_def)
qed

lemma rfind_split:
  "0 \<le> rfind s c \<Longrightarrow> \<exists>r. s = take (nat (rfind s c)) s @ c # r \<and> c \<notin> set r"
proof (induction s)
  case Nil
  then show ?case by simp
next
  case (Cons a s)
  show ?case
  proof (cases "0 \<le> rfind s c")
    case True
    then obtain r where r: "s = take (nat (rfind s c)) s @ c # r" "c \<notin> set r"
      using Cons.IH by blast
    have "rfind (a # s) c = rfind s c + 1" using True by (simp add: Let_def)
    then have "take (nat (rfind (a # s) c)) (a # s) = a # take (nat (rfind s c)) s"
      using True by (simp add: nat_add_distrib)
    then show ?thesis using r by (metis append_Cons)
  next
    case False
    then have nin: "c \<notin> set s" using rfind_neg_iff [of s c] by simp
    with Cons.prems False have "a = c" "rfind (a # s) c = 0"
      by (auto simp: Let_def split: if_splits)
    then show ?thesis using nin by simp
  qed
qed

lemma stem_suffix: "stem p @ suffix_of p = name p"
  by (simp add: stem_def suffix_of_def Let_def)

lemma suffix_shape:
  "suffix_of p \<noteq> [] \<Longrightarrow>
   \<exists>r. suffix_of p = CHR ''.'' # r \<and> r \<noteq> [] \<and> CHR ''.'' \<notin> set r \<and> stem p \<noteq> []"
proof -
  let ?nm = "name p" and ?i = "rfind (name p) CHR ''.''"
  assume ne: "suffix_of p \<noteq> []"
  then have i: "0 < ?i" "?i < int (length ?nm) - 1"
    by (auto simp: suffix_of_def Let_def split: if_splits)
  then obtain r where r: "?nm = take (nat ?i) ?nm @ CHR ''.'' # r" "CHR ''.'' \<notin> set r"
    using rfind_split [of ?nm "CHR ''.''"] by auto
  have len: "length (take (nat ?i) ?nm) = nat ?i" using i by simp
  have "drop (nat ?i) ?nm = CHR ''.'' # r"
    using r(1) len by (metis append_eq_conv_conj)
  then have s: "suffix_of p = CHR ''.'' # r" using i by (simp add: suffix_of_def Let_def)
  have "length ?nm = nat ?i + Suc (length r)" using r(1) len by (metis length_append length_Cons)
  with i have "r \<noteq> []" by auto
  moreover have "stem p \<noteq> []" using i by (auto simp: stem_def Let_def)
  ultimately show ?thesis using s r(2) by blast
qed

lemma name_with_suffix:
  assumes "name q = b @ CHR ''.'' # r" "b \<noteq> []" "r \<noteq> []" "CHR ''.'' \<notin> set r"
  shows "stem q = b \<and> suffix_of q = CHR ''.'' # r"
proof -
  have "rfind (name q) CHR ''.'' = int (length b)" using assms by (simp add: rfind_at)
  then show ?thesis using assms by (simp add: stem_def suffix_of_def Let_def)
qed

lemma no_suffix_rfind:
  assumes "suffix_of p = []" "\<not> (2 \<le> length (name p) \<and> last (name p) = CHR ''.'')"
  shows "rfind (name p) CHR ''.'' \<le> 0"
proof (rule ccontr)
  let ?nm = "name p" and ?i = "rfind (name p) CHR ''.''"
  assume "\<not> ?i \<le> 0"
  then have pos: "0 < ?i" by simp
  have lt: "?i < int (length ?nm)" using rfind_bounds by blast
  obtain r where r: "?nm = take (nat ?i) ?nm @ CHR ''.'' # r" using rfind_split [of ?nm "CHR ''.''"] pos by auto
  have "\<not> ?i < int (length ?nm) - 1"
  proof
    assume "?i < int (length ?nm) - 1"
    then have "suffix_of p = drop (nat ?i) ?nm" using pos by (simp add: suffix_of_def Let_def)
    moreover have "drop (nat ?i) ?nm \<noteq> []" using lt pos by simp
    ultimately show False using assms(1) by simp
  qed
  with lt have eq: "nat ?i = length ?nm - 1" by linarith
  have "length (take (nat ?i) ?nm) = nat ?i" using lt pos by simp
  then have "length ?nm = nat ?i + Suc (length r)" using r by (metis length_append length_Cons)
  with eq have "r = []" by simp
  with r have "last ?nm = CHR ''.''" by (metis last_snoc)
  moreover have "2 \<le> length ?nm" using pos lt by linarith
  ultimately show False using assms(2) by simp
qed

lemma name_without_suffix:
  assumes "suffix_of p = []" "\<not> (2 \<le> length (name p) \<and> last (name p) = CHR ''.'')"
    and "name q = name p @ t" "CHR ''.'' \<notin> set t"
  shows "stem q = name p @ t \<and> suffix_of q = []"
proof -
  have "rfind (name q) CHR ''.'' = rfind (name p) CHR ''.''"
    using assms by (simp add: rfind_append_notin)
  then have "rfind (name q) CHR ''.'' \<le> 0" using no_suffix_rfind [OF assms(1,2)] by simp
  then show ?thesis using assms(3) by (simp add: stem_def suffix_of_def Let_def)
qed

text \<open>The stem and suffix of a name built as stem, marker, suffix.\<close>

lemma name_with_marker:
  assumes ok: "\<not> (2 \<le> length (name p) \<and> last (name p) = CHR ''.'')"
    and d: "d \<noteq> []" "CHR ''.'' \<notin> set d"
    and q: "name q = stem p @ d @ suffix_of p"
  shows "stem q = stem p @ d \<and> suffix_of q = suffix_of p"
proof (cases "suffix_of p = []")
  case True
  then have "stem p = name p" using stem_suffix [of p] by simp
  then show ?thesis using name_without_suffix [OF True ok, of q d] d q True by simp
next
  case False
  then obtain r where r: "suffix_of p = CHR ''.'' # r" "r \<noteq> []" "CHR ''.'' \<notin> set r"
    using suffix_shape by blast
  have "name q = (stem p @ d) @ CHR ''.'' # r" using q r by simp
  then show ?thesis using name_with_suffix [of q "stem p @ d" r] d r by simp
qed

section \<open>Retry ledger: reading the count\<close>

lemma get_retry_count_eq:
  "get_retry_count p =
   Inr (if contains ''__retry'' (stem p)
        then (case py_int (last (split_from ''__retry'' [] (stem p))) of None \<Rightarrow> 0 | Some n \<Rightarrow> n)
        else 0)"
proof -
  obtain x xs where "split_from ''__retry'' [] (stem p) = x # xs"
    using split_from_nonempty [of "''__retry''" "[]" "stem p"]
    by (cases "split_from ''__retry'' [] (stem p)") auto
  then show ?thesis
    by (simp add: get_retry_count_def split_def last_item_def split: option.splits)
qed

lemma increment_retry_eq:
  assumes "name p \<noteq> []" "get_retry_count p = Inr c"
  shows "increment_retry p =
         Inr (p\<lparr>segs := butlast (segs p) @
                [hd (split_from ''__retry'' [] (stem p)) @ ''__retry'' @ py_str (c + 1) @ suffix_of p]\<rparr>)"
proof -
  obtain x xs where "split_from ''__retry'' [] (stem p) = x # xs"
    using split_from_nonempty [of "''__retry''" "[]" "stem p"]
    by (cases "split_from ''__retry'' [] (stem p)") auto
  then show ?thesis using assms
    by (simp add: increment_retry_def split_def first_item_def with_name_def)
qed

lemma contains_drop: "contains sep (drop k s) \<Longrightarrow> contains sep s"
proof (induction s arbitrary: k)
  case Nil
  then show ?case by simp
next
  case (Cons a s)
  then show ?case by (cases k) auto
qed

lemma contains_last_occurrence:
  "contains sep s \<Longrightarrow> sep \<noteq> [] \<Longrightarrow> \<exists>b d. s = b @ sep @ d \<and> \<not> contains sep d"
proof (induction s)
  case Nil
  then show ?case by simp
next
  case (Cons c cs)
  show ?case
  proof (cases "contains sep cs")
    case True
    then obtain b d where "cs = b @ sep @ d" "\<not> contains sep d"
      using Cons.IH Cons.prems(2) by blast
    then have "c # cs = (c # b) @ sep @ d" by simp
    then show ?thesis using \<open>\<not> contains sep d\<close> by blast
  next
    case False
    with Cons.prems have "prefix sep (c # cs)" by simp
    then obtain d where d: "c # cs = sep @ d" by (auto simp: prefix_def)
    have "\<not> contains sep d"
    proof (cases sep)
      case Nil
      with Cons.prems show ?thesis by simp
    next
      case (Cons x xs)
      with d have "d = drop (length xs) cs" by (metis append_eq_conv_conj list.sel(3) append_Cons)
      then show ?thesis using False contains_drop by blast
    qed
    with d show ?thesis by (metis append_Nil)
  qed
qed

lemma set_strip: "set (strip s) \<subseteq> set s"
proof -
  have "set (strip s) \<subseteq> set (dropWhile is_space s)"
    unfolding strip_def using set_dropWhileD [of _ is_space "rev (dropWhile is_space s)"] by auto
  then show ?thesis using set_dropWhileD [of _ is_space s] by blast
qed

lemma py_int_negative: "py_int s = Some n \<Longrightarrow> n < 0 \<Longrightarrow> CHR ''-'' \<in> set s"
proof -
  assume a: "py_int s = Some n" "n < 0"
  then have "\<exists>cs. strip s = CHR ''-'' # cs"
    by (auto simp: py_int_def split: list.splits if_splits)
  then have "CHR ''-'' \<in> set (strip s)" by auto
  then show ?thesis using set_strip by blast
qed

lemma set_split_from: "x \<in> set (split_from sep cur s) \<Longrightarrow> set x \<subseteq> set cur \<union> set s"
proof (induction sep cur s arbitrary: x rule: split_from.induct)
  case (1 sep cur)
  then show ?case by simp
next
  case (2 sep cur c cs)
  show ?case
  proof (cases "prefix sep (c # cs)")
    case True
    with "2.prems" have "x = rev cur \<or> x \<in> set (split_from sep [] (drop (length sep - 1) cs))"
      by simp
    then show ?thesis
    proof
      assume "x = rev cur" then show ?thesis by auto
    next
      assume "x \<in> set (split_from sep [] (drop (length sep - 1) cs))"
      then have "set x \<subseteq> set (drop (length sep - 1) cs)" using "2.IH"(1) [OF True] by auto
      then show ?thesis using set_drop_subset [of "length sep - 1" cs] by auto
    qed
  next
    case False
    with "2.prems" have "x \<in> set (split_from sep (c # cur) cs)" by simp
    then show ?thesis using "2.IH"(2) [OF False] by auto
  qed
qed

lemma get_retry_count_sign:
  assumes "get_retry_count p = Inr n" "n < 0"
  shows "CHR ''-'' \<in> set (stem p)"
proof -
  let ?l = "last (split_from ''__retry'' [] (stem p))"
  from assms have "py_int ?l = Some n"
    by (auto simp: get_retry_count_eq split: if_splits option.splits)
  then have "CHR ''-'' \<in> set ?l" using assms(2) py_int_negative by blast
  moreover have "?l \<in> set (split_from ''__retry'' [] (stem p))"
    by (simp add: split_from_nonempty)
  ultimately show ?thesis using set_split_from by fastforce
qed

text \<open>
  Claim C8, as the code has it. \<open>get_retry_count\<close> never raises: it returns an integer
  for every path. Without a marker in the stem it returns 0. With a marker, the stem
  ends in a last marker followed by a payload, and the result is what \<open>int\<close> reads from
  that payload, or 0 when \<open>int\<close> refuses it. The result is negative only when the stem
  carries a minus sign.
\<close>

theorem get_retry_count_reads_marker:
  "(\<exists>n. get_retry_count p = Inr n) \<and>
   (\<not> contains ''__retry'' (stem p) \<longrightarrow> get_retry_count p = Inr 0) \<and>
   (contains ''__retry'' (stem p) \<longrightarrow>
      (\<exists>b d. stem p = b @ ''__retry'' @ d \<and> \<not> contains ''__retry'' d)) \<and>
   (\<forall>b d. stem p = b @ ''__retry'' @ d \<and> \<not> contains ''__retry'' d \<longrightarrow>
      get_retry_count p = Inr (case py_int d of None \<Rightarrow> 0 | Some n \<Rightarrow> n)) \<and>
   (\<forall>n. get_retry_count p = Inr n \<and> CHR ''-'' \<notin> set (stem p) \<longrightarrow> 0 \<le> n)"
proof (intro conjI allI impI)
  show "\<exists>n. get_retry_count p = Inr n" by (simp add: get_retry_count_eq)
  show "get_retry_count p = Inr 0" if "\<not> contains ''__retry'' (stem p)"
    using that by (simp add: get_retry_count_eq)
  show "\<exists>b d. stem p = b @ ''__retry'' @ d \<and> \<not> contains ''__retry'' d"
    if "contains ''__retry'' (stem p)"
    using that by (rule contains_last_occurrence) simp
  show "get_retry_count p = Inr (case py_int d of None \<Rightarrow> 0 | Some n \<Rightarrow> n)"
    if "stem p = b @ ''__retry'' @ d \<and> \<not> contains ''__retry'' d" for b d
  proof -
    have eq: "stem p = b @ ''__retry'' @ d" and nd: "\<not> contains ''__retry'' d"
      using that by blast+
    have "last (split_from ''__retry'' [] (stem p)) = last (split_from ''__retry'' [] d)"
      unfolding eq by (rule last_split_from_marker)
    also have "\<dots> = d" using nd by (simp add: split_from_no_sep)
    finally have "last (split_from ''__retry'' [] (stem p)) = d" .
    moreover have "contains ''__retry'' (stem p)"
      unfolding eq by (rule contains_append_sep)
    ultimately show ?thesis by (simp add: get_retry_count_eq)
  qed
  show "0 \<le> n" if "get_retry_count p = Inr n \<and> CHR ''-'' \<notin> set (stem p)" for n
    using that get_retry_count_sign [of p n] by force
qed

theorem get_retry_count_reads_marker_witness:
  "contains ''__retry'' (stem (joinpath WATCH_FOLDER ''x__retry2.jpg'')) \<and>
   stem (joinpath WATCH_FOLDER ''x__retry2.jpg'') = ''x'' @ ''__retry'' @ ''2'' \<and>
   \<not> contains ''__retry'' ''2'' \<and>
   CHR ''-'' \<notin> set (stem (joinpath WATCH_FOLDER ''x__retry2.jpg'')) \<and>
   get_retry_count (joinpath WATCH_FOLDER ''x__retry2.jpg'') = Inr 2 \<and>
   \<not> contains ''__retry'' (stem (joinpath WATCH_FOLDER ''x.jpg'')) \<and>
   get_retry_count (joinpath WATCH_FOLDER ''x.jpg'') = Inr 0"
proof -
  let ?p = "joinpath WATCH_FOLDER ''x__retry2.jpg''" and ?q = "joinpath WATCH_FOLDER ''x.jpg''"
  have s: "stem ?p = ''x'' @ ''__retry'' @ ''2''" by code_simp
  have n: "\<not> contains ''__retry'' ''2''" by code_simp
  have c: "contains ''__retry'' (stem ?p)" by code_simp
  have m: "CHR ''-'' \<notin> set (stem ?p)" by code_simp
  have v: "py_int ''2'' = Some 2" by code_simp
  have f: "\<not> contains ''__retry'' (stem ?q)" by code_simp
  from get_retry_count_reads_marker [of ?p] s n
  have "get_retry_count ?p = Inr (case py_int ''2'' of None \<Rightarrow> 0 | Some n \<Rightarrow> n)" by blast
  then have "get_retry_count ?p = Inr 2" using v by simp
  moreover from get_retry_count_reads_marker [of ?q] f have "get_retry_count ?q = Inr 0" by blast
  ultimately show ?thesis using s n c m f by blast
qed

text \<open>
  The claim as written fails on the count being non-negative: the payload \<open>-2\<close> is an
  integer for \<open>int\<close>.
\<close>

theorem get_retry_count_negative:
  "get_retry_count (joinpath WATCH_FOLDER ''x__retry-2.jpg'') = Inr (- 2)"
  by code_simp

section \<open>Retry ledger: the next name\<close>

lemma name_with_name: "name (p\<lparr>segs := butlast (segs p) @ [nm]\<rparr>) = nm"
  by (simp add: name_def)

lemma increment_retry_name:
  assumes "name p \<noteq> []" "get_retry_count p = Inr c"
  shows "\<exists>q. increment_retry p = Inr q \<and> anchor q = anchor p \<and>
             butlast (segs q) = butlast (segs p) \<and>
             name q = hd (split_from ''__retry'' [] (stem p)) @ ''__retry'' @ py_str (c + 1) @ suffix_of p"
  using increment_retry_eq [OF assms] by (simp add: name_def)

lemma count_of_marked:
  assumes "stem q = b @ ''__retry'' @ py_str k"
  shows "get_retry_count q = Inr k"
proof -
  have "last (split_from ''__retry'' [] (stem q)) = last (split_from ''__retry'' [] (py_str k))"
    unfolding assms by (rule last_split_from_marker)
  also have "\<dots> = py_str k" by (simp add: split_from_no_sep py_str_no_marker)
  finally have "last (split_from ''__retry'' [] (stem q)) = py_str k" .
  moreover have "contains ''__retry'' (stem q)" unfolding assms by (rule contains_append_sep)
  ultimately show ?thesis by (simp add: get_retry_count_eq py_int_py_str)
qed

lemma marker_no_dot: "CHR ''.'' \<notin> set (''__retry'' @ py_str k)"
  using py_str_no_dot [of k] by simp

lemma py_str_nonempty: "py_str k \<noteq> []"
  by (simp add: py_str_def str_nat_nonempty)

text \<open>With a suffix, the renamed file reads back the count it was given.\<close>

lemma increment_retry_count:
  assumes "name p \<noteq> []" "suffix_of p \<noteq> []" "get_retry_count p = Inr c"
    and "increment_retry p = Inr q"
  shows "get_retry_count q = Inr (c + 1) \<and> suffix_of q = suffix_of p"
proof -
  let ?b = "hd (split_from ''__retry'' [] (stem p)) @ ''__retry'' @ py_str (c + 1)"
  obtain r where r: "suffix_of p = CHR ''.'' # r" "r \<noteq> []" "CHR ''.'' \<notin> set r"
    using suffix_shape [OF assms(2)] by blast
  have "name q = ?b @ CHR ''.'' # r"
    using increment_retry_name [OF assms(1,3)] assms(4) r(1) by simp
  then have sq: "stem q = ?b \<and> suffix_of q = CHR ''.'' # r"
    by (rule name_with_suffix) (use r in simp_all)
  then have "get_retry_count q = Inr (c + 1)"
    using count_of_marked [of q "hd (split_from ''__retry'' [] (stem p))" "c + 1"] by simp
  then show ?thesis using sq r(1) by simp
qed

text \<open>The chain that starts at a name without marker, in closed form.\<close>

lemma stem_retry_named:
  assumes "\<not> (2 \<le> length (name p) \<and> last (name p) = CHR ''.'')"
  shows "stem (retry_named p k) = stem p @ ''__retry'' @ py_str k \<and>
         suffix_of (retry_named p k) = suffix_of p"
proof -
  have "name (retry_named p k) = stem p @ (''__retry'' @ py_str k) @ suffix_of p"
    by (simp add: name_def)
  then show ?thesis
    using name_with_marker [OF assms _ marker_no_dot [of k], of "retry_named p k"] by simp
qed

lemma split_retry_named:
  assumes "\<not> (2 \<le> length (name p) \<and> last (name p) = CHR ''.'')"
    and "\<not> contains ''__retry'' (stem p)"
  shows "split_from ''__retry'' [] (stem (retry_named p k)) = [stem p, py_str k]"
proof -
  have "split_from ''__retry'' [] (stem p @ ''__retry'' @ py_str k) =
        (rev [] @ stem p) # split_from ''__retry'' [] (py_str k)"
    using assms(2) by (rule split_from_marker)
  then show ?thesis
    using stem_retry_named [OF assms(1), of k] by (simp add: split_from_no_sep py_str_no_marker)
qed

lemma count_retry_named:
  assumes "\<not> (2 \<le> length (name p) \<and> last (name p) = CHR ''.'')"
  shows "get_retry_count (retry_named p k) = Inr k"
  using count_of_marked [of "retry_named p k" "stem p" k] stem_retry_named [OF assms, of k] by simp

lemma increment_fresh:
  assumes "name p \<noteq> []" "\<not> contains ''__retry'' (stem p)"
  shows "increment_retry p = Inr (retry_named p 1)"
proof -
  have "get_retry_count p = Inr 0" using assms(2) by (simp add: get_retry_count_eq)
  from increment_retry_eq [OF assms(1) this] show ?thesis
    using assms(2) by (simp add: split_from_no_sep)
qed

lemma increment_retry_named:
  assumes "name p \<noteq> []" "\<not> contains ''__retry'' (stem p)"
    and "\<not> (2 \<le> length (name p) \<and> last (name p) = CHR ''.'')"
  shows "increment_retry (retry_named p k) = Inr (retry_named p (k + 1))"
proof -
  let ?q = "retry_named p k"
  have nq: "name ?q \<noteq> []" by (simp add: name_def)
  have "increment_retry ?q =
        Inr (?q\<lparr>segs := butlast (segs ?q) @
               [hd (split_from ''__retry'' [] (stem ?q)) @ ''__retry'' @ py_str (k + 1) @ suffix_of ?q]\<rparr>)"
    using nq count_retry_named [OF assms(3), of k] by (rule increment_retry_eq)
  then show ?thesis
    using split_retry_named [OF assms(3,2), of k] stem_retry_named [OF assms(3), of k] by simp
qed

lemma retry_chain_closed:
  assumes "name p \<noteq> []" "\<not> contains ''__retry'' (stem p)"
    and "\<not> (2 \<le> length (name p) \<and> last (name p) = CHR ''.'')"
  shows "retry_chain (Suc n) p = Inr (retry_named p (int (Suc n)))"
proof (induction n)
  case 0
  then show ?case using increment_fresh [OF assms(1,2)] by simp
next
  case (Suc n)
  have "retry_chain (Suc (Suc n)) p = increment_retry (retry_named p (int (Suc n)))"
    using Suc by simp
  also have "\<dots> = Inr (retry_named p (int (Suc n) + 1))"
    using assms by (rule increment_retry_named)
  finally show ?case by (simp add: add.commute)
qed

lemma retry_chain_add:
  "retry_chain (m + n) p = (case retry_chain m p of Inl e \<Rightarrow> Inl e | Inr r \<Rightarrow> retry_chain n r)"
  by (induction n) (auto split: sum.splits)

text \<open>
  Claim C4, for the names the code treats this way. Take a name with no marker in its
  stem that does not end in a dot behind another character. Applying
  \<open>increment_retry\<close> \<open>N\<close> times succeeds, and the name reached reads back the count
  \<open>N\<close>, splits to the stem it started from, and keeps the suffix and the folder. One more
  application reads back \<open>N + 1\<close>, so the counts rise by one at each step, and the
  chain restarted from any earlier point reaches the same name.
\<close>

theorem retry_chain_counts:
  assumes "name p \<noteq> []" and "\<not> contains ''__retry'' (stem p)"
    and "\<not> (2 \<le> length (name p) \<and> last (name p) = CHR ''.'')"
  shows "\<exists>q. retry_chain N p = Inr q \<and>
           get_retry_count q = Inr (int N) \<and>
           (case split (stem q) ''__retry'' of
              Inl e \<Rightarrow> False
            | Inr parts \<Rightarrow> first_item parts = Inr (stem p)) \<and>
           suffix_of q = suffix_of p \<and> anchor q = anchor p \<and>
           butlast (segs q) = butlast (segs p) \<and>
           (0 < N \<longrightarrow> name q = stem p @ ''__retry'' @ py_str (int N) @ suffix_of p) \<and>
           (\<exists>q'. increment_retry q = Inr q' \<and> get_retry_count q' = Inr (int N + 1)) \<and>
           (\<forall>M \<le> N. \<exists>r. retry_chain M p = Inr r \<and> retry_chain (N - M) r = Inr q)"
proof -
  have closed: "retry_chain k p = Inr (if k = 0 then p else retry_named p (int k))" for k
    using retry_chain_closed [OF assms] by (cases k) simp_all
  have later: "\<exists>r. retry_chain M p = Inr r \<and> retry_chain (N - M) r = retry_chain N p"
    if "M \<le> N" for M
    using that retry_chain_add [of M "N - M" p] closed [of M] by simp
  show ?thesis
  proof (cases N)
    case 0
    have "get_retry_count p = Inr 0" using assms(2) by (simp add: get_retry_count_eq)
    moreover have "split (stem p) ''__retry'' = Inr [stem p]"
      using assms(2) by (simp add: split_def split_from_no_sep)
    moreover have "increment_retry p = Inr (retry_named p 1)"
      using assms(1,2) by (rule increment_fresh)
    moreover have "get_retry_count (retry_named p 1) = Inr 1"
      using assms(3) by (rule count_retry_named)
    ultimately show ?thesis using 0 by (simp add: first_item_def)
  next
    case (Suc n)
    let ?q = "retry_named p (int N)"
    have "retry_chain N p = Inr ?q" using closed [of N] Suc by simp
    moreover have "get_retry_count ?q = Inr (int N)" using assms(3) by (rule count_retry_named)
    moreover have "split (stem ?q) ''__retry'' = Inr [stem p, py_str (int N)]"
      using split_retry_named [OF assms(3,2), of "int N"] by (simp add: split_def)
    moreover have "suffix_of ?q = suffix_of p" using stem_retry_named [OF assms(3)] by blast
    moreover have "name ?q = stem p @ ''__retry'' @ py_str (int N) @ suffix_of p"
      by (simp add: name_def)
    moreover have "increment_retry ?q = Inr (retry_named p (int N + 1))"
      using assms by (rule increment_retry_named)
    moreover have "get_retry_count (retry_named p (int N + 1)) = Inr (int N + 1)"
      using assms(3) by (rule count_retry_named)
    moreover have "\<forall>M \<le> N. \<exists>r. retry_chain M p = Inr r \<and> retry_chain (N - M) r = Inr ?q"
      using later \<open>retry_chain N p = Inr ?q\<close> by simp
    ultimately show ?thesis by (simp add: first_item_def)
  qed
qed

theorem retry_chain_counts_witness:
  "name (joinpath WATCH_FOLDER ''x.jpg'') \<noteq> [] \<and>
   \<not> contains ''__retry'' (stem (joinpath WATCH_FOLDER ''x.jpg'')) \<and>
   \<not> (2 \<le> length (name (joinpath WATCH_FOLDER ''x.jpg'')) \<and>
      last (name (joinpath WATCH_FOLDER ''x.jpg'')) = CHR ''.'') \<and>
   retry_chain 3 (joinpath WATCH_FOLDER ''x.jpg'') = Inr (joinpath WATCH_FOLDER ''x__retry3.jpg'') \<and>
   get_retry_count (joinpath WATCH_FOLDER ''x__retry3.jpg'') = Inr 3"
proof -
  let ?p = "joinpath WATCH_FOLDER ''x.jpg''"
  have a: "name ?p \<noteq> []" by code_simp
  have b: "\<not> contains ''__retry'' (stem ?p)" by code_simp
  have c: "\<not> (2 \<le> length (name ?p) \<and> last (name ?p) = CHR ''.'')" by code_simp
  have d: "retry_chain 3 ?p = Inr (joinpath WATCH_FOLDER ''x__retry3.jpg'')" by code_simp
  from retry_chain_counts [OF a b c, of 3] d
  have "get_retry_count (joinpath WATCH_FOLDER ''x__retry3.jpg'') = Inr 3" by auto
  with a b c d show ?thesis by blast
qed

text \<open>
  The claim as written fails for a name that ends in a dot: \<open>pathlib\<close> takes the
  marker appended to \<open>a.\<close> for the suffix of the new name, so the count read back is 0
  and the stem is no longer the same.
\<close>

theorem retry_chain_trailing_dot:
  "name (joinpath WATCH_FOLDER ''a.'') \<noteq> [] \<and>
   \<not> contains ''__retry'' (stem (joinpath WATCH_FOLDER ''a.'')) \<and>
   retry_chain 1 (joinpath WATCH_FOLDER ''a.'') = Inr (joinpath WATCH_FOLDER ''a.__retry1'') \<and>
   get_retry_count (joinpath WATCH_FOLDER ''a.__retry1'') = Inr 0 \<and>
   stem (joinpath WATCH_FOLDER ''a.'') = ''a.'' \<and>
   stem (joinpath WATCH_FOLDER ''a.__retry1'') = ''a''"
  by code_simp

section \<open>Stability prober\<close>

lemma wait_loop_samples:
  "k \<le> snd (wait_loop stat p n k l) \<and> snd (wait_loop stat p n k l) \<le> k + n"
proof (induction n arbitrary: k l)
  case 0
  then show ?case by simp
next
  case (Suc n)
  show ?case
  proof (cases "stat p k")
    case (Inl e)
    then show ?thesis by simp
  next
    case (Inr c)
    then show ?thesis using Suc [of "Suc k" "int c"] by auto
  qed
qed

lemma wait_loop_true: "fst (wait_loop stat p n k l) = Inr True \<Longrightarrow> k < snd (wait_loop stat p n k l)"
proof (induction n arbitrary: k l)
  case 0
  then show ?case by simp
next
  case (Suc n)
  show ?case
  proof (cases "stat p k")
    case (Inl e)
    with Suc.prems show ?thesis by simp
  next
    case (Inr c)
    show ?thesis
    proof (cases "int c = l")
      case True
      with Inr show ?thesis by simp
    next
      case False
      with Inr Suc.prems have "fst (wait_loop stat p n (Suc k) (int c)) = Inr True" by simp
      then have "Suc k < snd (wait_loop stat p n (Suc k) (int c))" by (rule Suc.IH)
      with Inr False show ?thesis by simp
    qed
  qed
qed

lemma wait_loop_stable_at:
  assumes "\<forall>j \<le> Suc i. stat p (k + j) = Inr (s (k + j))"
    and "l \<noteq> int (s k)"
    and "\<forall>j < i. s (k + j) \<noteq> s (Suc (k + j))"
    and "s (k + i) = s (Suc (k + i))"
    and "i + 2 \<le> n"
  shows "wait_loop stat p n k l = (Inr True, k + i + 2)"
  using assms
proof (induction i arbitrary: n k l)
  case 0
  then obtain m where n: "n = Suc (Suc m)" by (metis add_2_eq_Suc le_Suc_ex add_0)
  have "stat p k = Inr (s k)" "stat p (Suc k) = Inr (s (Suc k))"
    using "0.prems"(1) [rule_format, of 0] "0.prems"(1) [rule_format, of 1] by simp_all
  then show ?case using 0 n by simp
next
  case (Suc i)
  then obtain m where n: "n = Suc m" "i + 2 \<le> m" by (cases n) auto
  have r0: "stat p k = Inr (s k)" using Suc.prems(1) [rule_format, of 0] by simp
  have d: "s k \<noteq> s (Suc k)" using Suc.prems(3) [rule_format, of 0] by simp
  have "wait_loop stat p m (Suc k) (int (s k)) = (Inr True, Suc k + i + 2)"
  proof (rule Suc.IH)
    show "\<forall>j \<le> Suc i. stat p (Suc k + j) = Inr (s (Suc k + j))"
    proof (intro allI impI)
      fix j assume "j \<le> Suc i"
      then have "Suc j \<le> Suc (Suc i)" by simp
      then have "stat p (k + Suc j) = Inr (s (k + Suc j))" using Suc.prems(1) by blast
      then show "stat p (Suc k + j) = Inr (s (Suc k + j))" by simp
    qed
    show "int (s k) \<noteq> int (s (Suc k))" using d by simp
    show "\<forall>j < i. s (Suc k + j) \<noteq> s (Suc (Suc k + j))"
      using Suc.prems(3) by (auto dest: spec [of _ "Suc _"])
    show "s (Suc k + i) = s (Suc (Suc k + i))" using Suc.prems(4) by simp
    show "i + 2 \<le> m" by (rule n(2))
  qed
  then show ?case using n r0 Suc.prems(2) by simp
qed

lemma wait_loop_never_stable:
  assumes "\<forall>j < n. stat p (k + j) = Inr (s (k + j))"
    and "0 < n \<longrightarrow> l \<noteq> int (s k)"
    and "\<forall>j. Suc j < n \<longrightarrow> s (k + j) \<noteq> s (Suc (k + j))"
  shows "wait_loop stat p n k l = (Inr False, k + n)"
  using assms
proof (induction n arbitrary: k l)
  case 0
  then show ?case by simp
next
  case (Suc n)
  have r0: "stat p k = Inr (s k)" using Suc.prems(1) [rule_format, of 0] by simp
  have "wait_loop stat p n (Suc k) (int (s k)) = (Inr False, Suc k + n)"
  proof (rule Suc.IH)
    show "\<forall>j < n. stat p (Suc k + j) = Inr (s (Suc k + j))"
      using Suc.prems(1) by (auto dest: spec [of _ "Suc _"])
    show "0 < n \<longrightarrow> int (s k) \<noteq> int (s (Suc k))"
      using Suc.prems(3) [rule_format, of 0] by simp
    show "\<forall>j. Suc j < n \<longrightarrow> s (Suc k + j) \<noteq> s (Suc (Suc k + j))"
      using Suc.prems(3) by (auto dest: spec [of _ "Suc _"])
  qed
  then show ?case using r0 Suc.prems(2) by simp
qed

lemma wait_loop_read_error:
  assumes "\<forall>j < i. stat p (k + j) = Inr (s (k + j))"
    and "0 < i \<longrightarrow> l \<noteq> int (s k)"
    and "\<forall>j. Suc j < i \<longrightarrow> s (k + j) \<noteq> s (Suc (k + j))"
    and "stat p (k + i) = Inl e"
    and "i < n"
  shows "wait_loop stat p n k l = (Inl e, Suc (k + i))"
  using assms
proof (induction i arbitrary: n k l)
  case 0
  then obtain m where "n = Suc m" by (cases n) auto
  then show ?case using 0 by simp
next
  case (Suc i)
  then obtain m where n: "n = Suc m" "i < m" by (cases n) auto
  have r0: "stat p k = Inr (s k)" using Suc.prems(1) [rule_format, of 0] by simp
  have "wait_loop stat p m (Suc k) (int (s k)) = (Inl e, Suc (Suc k + i))"
  proof (rule Suc.IH)
    show "\<forall>j < i. stat p (Suc k + j) = Inr (s (Suc k + j))"
      using Suc.prems(1) by (auto dest: spec [of _ "Suc _"])
    show "0 < i \<longrightarrow> int (s k) \<noteq> int (s (Suc k))"
      using Suc.prems(3) [rule_format, of 0] by simp
    show "\<forall>j. Suc j < i \<longrightarrow> s (Suc k + j) \<noteq> s (Suc (Suc k + j))"
      using Suc.prems(3) by (auto dest: spec [of _ "Suc _"])
    show "stat p (Suc k + i) = Inl e" using Suc.prems(4) by simp
    show "i < m" by (rule n(2))
  qed
  then show ?case using n r0 Suc.prems(2) by simp
qed

lemma on_created_unstable:
  assumes "accepted ev" "fst (wait_until_file_stable stat (src_path ev) 10) = Inr False"
  shows "on_created stat run ev w =
         (Inr (), print (NotStable (name (src_path ev))) (print (NewLabel (name (src_path ev))) w))"
  using assms by (simp add: on_created_def Let_def)

lemma on_created_probe_error:
  assumes "accepted ev" "fst (wait_until_file_stable stat (src_path ev) 10) = Inl e"
  shows "on_created stat run ev w = (Inl e, print (NewLabel (name (src_path ev))) w)"
  using assms by (simp add: on_created_def Let_def)

lemma wait_first_sample:
  "stat p 0 = Inr c \<Longrightarrow> wait_loop stat p (Suc n) 0 (- 1) = wait_loop stat p n 1 (int c)"
  by simp

lemma wait_true_two_samples:
  assumes "fst (wait_until_file_stable stat p timeout) = Inr True"
  shows "2 \<le> snd (wait_until_file_stable stat p timeout)"
proof (cases "nat timeout")
  case 0
  with assms show ?thesis by (simp add: wait_until_file_stable_def)
next
  case (Suc n)
  show ?thesis
  proof (cases "stat p 0")
    case (Inl e)
    with assms Suc show ?thesis by (simp add: wait_until_file_stable_def)
  next
    case (Inr c)
    then have eq: "wait_until_file_stable stat p timeout = wait_loop stat p n 1 (int c)"
      using Suc by (simp add: wait_until_file_stable_def)
    with assms have "1 < snd (wait_loop stat p n 1 (int c))" using wait_loop_true by metis
    with eq show ?thesis by simp
  qed
qed

text \<open>
  Claim C9. When the sizes can be read, \<open>wait_until_file_stable\<close> returns true at the
  first sample that equals the one before it, after exactly those samples; a file of
  constant size is confirmed with two samples once the timeout allows two; the probe
  never takes more samples than the timeout. When no two consecutive samples among the
  first \<open>timeout\<close> are equal it returns false after \<open>timeout\<close> samples, and
  \<open>on_created\<close> then returns with the files as they were: no marker is created and
  nothing is moved.
\<close>

theorem stable_at_first_equal_pair:
  "((\<forall>j \<le> Suc i. stat p j = Inr (s j)) \<and> (\<forall>j < i. s j \<noteq> s (Suc j)) \<and> s i = s (Suc i) \<and>
      int i + 2 \<le> timeout
      \<longrightarrow> wait_until_file_stable stat p timeout = (Inr True, i + 2)) \<and>
   ((\<forall>j. stat p j = Inr c) \<and> 2 \<le> timeout
      \<longrightarrow> wait_until_file_stable stat p timeout = (Inr True, 2)) \<and>
   snd (wait_until_file_stable stat p timeout) \<le> nat timeout \<and>
   ((\<forall>j. int j < timeout \<longrightarrow> stat p j = Inr (s j)) \<and>
    (\<forall>j. int j + 1 < timeout \<longrightarrow> s j \<noteq> s (Suc j))
      \<longrightarrow> wait_until_file_stable stat p timeout = (Inr False, nat timeout)) \<and>
   (accepted ev \<and> (\<forall>j < 10. stat (src_path ev) j = Inr (s j)) \<and> (\<forall>j < 9. s j \<noteq> s (Suc j))
      \<longrightarrow> (\<exists>w'. on_created stat run ev w = (Inr (), w') \<and> files w' = files w \<and>
                out w' = out w @ [NewLabel (name (src_path ev)), NotStable (name (src_path ev))]))"
proof (intro conjI impI)
  assume a: "(\<forall>j \<le> Suc i. stat p j = Inr (s j)) \<and> (\<forall>j < i. s j \<noteq> s (Suc j)) \<and> s i = s (Suc i) \<and>
      int i + 2 \<le> timeout"
  have "wait_loop stat p (nat timeout) 0 (- 1) = (Inr True, 0 + i + 2)"
    by (rule wait_loop_stable_at [where s = s]) (use a in auto)
  then show "wait_until_file_stable stat p timeout = (Inr True, i + 2)"
    by (simp add: wait_until_file_stable_def)
next
  assume a: "(\<forall>j. stat p j = Inr c) \<and> 2 \<le> timeout"
  have "wait_loop stat p (nat timeout) 0 (- 1) = (Inr True, 0 + 0 + 2)"
    by (rule wait_loop_stable_at [where s = "\<lambda>_. c"]) (use a in auto)
  then show "wait_until_file_stable stat p timeout = (Inr True, 2)"
    by (simp add: wait_until_file_stable_def)
next
  show "snd (wait_until_file_stable stat p timeout) \<le> nat timeout"
    using wait_loop_samples [of 0 stat p "nat timeout" "- 1"]
    by (simp add: wait_until_file_stable_def)
next
  assume a: "(\<forall>j. int j < timeout \<longrightarrow> stat p j = Inr (s j)) \<and>
    (\<forall>j. int j + 1 < timeout \<longrightarrow> s j \<noteq> s (Suc j))"
  have "wait_loop stat p (nat timeout) 0 (- 1) = (Inr False, 0 + nat timeout)"
    by (rule wait_loop_never_stable [where s = s]) (use a in auto)
  then show "wait_until_file_stable stat p timeout = (Inr False, nat timeout)"
    by (simp add: wait_until_file_stable_def)
next
  assume a: "accepted ev \<and> (\<forall>j < 10. stat (src_path ev) j = Inr (s j)) \<and> (\<forall>j < 9. s j \<noteq> s (Suc j))"
  have "wait_loop stat (src_path ev) (nat 10) 0 (- 1) = (Inr False, 0 + nat 10)"
    by (rule wait_loop_never_stable [where s = s]) (use a in auto)
  then have "fst (wait_until_file_stable stat (src_path ev) 10) = Inr False"
    by (simp add: wait_until_file_stable_def)
  with a have "on_created stat run ev w =
      (Inr (), print (NotStable (name (src_path ev))) (print (NewLabel (name (src_path ev))) w))"
    by (intro on_created_unstable) simp_all
  then show "\<exists>w'. on_created stat run ev w = (Inr (), w') \<and> files w' = files w \<and>
      out w' = out w @ [NewLabel (name (src_path ev)), NotStable (name (src_path ev))]"
    by (simp add: print_def)
qed

theorem stable_at_first_equal_pair_witness:
  "(\<forall>j. steady (joinpath WATCH_FOLDER ''x.jpg'') j = Inr 100) \<and> (2::int) \<le> 10 \<and>
   wait_until_file_stable steady (joinpath WATCH_FOLDER ''x.jpg'') 10 = (Inr True, 2) \<and>
   (\<forall>j. settling (joinpath WATCH_FOLDER ''x.jpg'') j = Inr (100 * min j 2)) \<and>
   (100 * min 0 2 :: nat) \<noteq> 100 * min (Suc 0) 2 \<and>
   (100 * min 1 2 :: nat) \<noteq> 100 * min (Suc 1) 2 \<and>
   (100 * min 2 2 :: nat) = 100 * min (Suc 2) 2 \<and> int 2 + 2 \<le> 10 \<and>
   wait_until_file_stable settling (joinpath WATCH_FOLDER ''x.jpg'') 10 = (Inr True, 4) \<and>
   (\<forall>j. growing (joinpath WATCH_FOLDER ''x.jpg'') j = Inr j) \<and>
   (\<forall>j::nat. j \<noteq> Suc j) \<and>
   wait_until_file_stable growing (joinpath WATCH_FOLDER ''x.jpg'') 10 = (Inr False, 10) \<and>
   snd (wait_until_file_stable growing (joinpath WATCH_FOLDER ''x.jpg'') 10) \<le> nat 10 \<and>
   accepted (created ''x.jpg'') \<and>
   fst (on_created growing run_ok (created ''x.jpg'') (folder_with ''x.jpg'')) = Inr () \<and>
   files (snd (on_created growing run_ok (created ''x.jpg'') (folder_with ''x.jpg''))) =
     files (folder_with ''x.jpg'')"
proof -
  let ?p = "joinpath WATCH_FOLDER ''x.jpg''"
  have st: "\<forall>j. steady ?p j = Inr 100" by (simp add: steady_def)
  have se: "\<forall>j. settling ?p j = Inr (100 * min j 2)" by (simp add: settling_def)
  have gr: "\<forall>j. growing ?p j = Inr j" "\<forall>j. growing (src_path (created ''x.jpg'')) j = Inr j"
    by (simp_all add: growing_def)
  have acc: "accepted (created ''x.jpg'')" by code_simp
  have 1: "wait_until_file_stable steady ?p 10 = (Inr True, 2)"
    using stable_at_first_equal_pair [of 0 steady ?p "\<lambda>_. 100" 10 100] st by simp
  have "\<forall>j<2. (100 * min j 2 :: nat) \<noteq> 100 * min (Suc j) 2" by (simp add: less_Suc_eq numeral_2_eq_2)
  then have 2: "wait_until_file_stable settling ?p 10 = (Inr True, 4)"
    using stable_at_first_equal_pair [of 2 settling ?p "\<lambda>j. 100 * min j 2" 10] se by simp
  have 3: "wait_until_file_stable growing ?p 10 = (Inr False, 10)"
    using stable_at_first_equal_pair [of 0 growing ?p "\<lambda>j. j" 10] gr by simp
  have 4: "snd (wait_until_file_stable growing ?p 10) \<le> nat 10"
    using stable_at_first_equal_pair [of 0 growing ?p "\<lambda>j. j" 10] by blast
  have 5: "fst (on_created growing run_ok (created ''x.jpg'') (folder_with ''x.jpg'')) = Inr () \<and>
     files (snd (on_created growing run_ok (created ''x.jpg'') (folder_with ''x.jpg''))) =
     files (folder_with ''x.jpg'')"
    using stable_at_first_equal_pair
      [of 0 growing "src_path (created ''x.jpg'')" "\<lambda>j. j" 10 0 "created ''x.jpg''" run_ok
          "folder_with ''x.jpg''"]
      gr acc by auto
  show ?thesis using st se gr acc 1 2 3 4 5 by simp
qed

text \<open>
  Claim C10. With a timeout of at most one the probe never returns true, and returns
  false when its one sample can be read. Whenever it returns true it has taken at least
  two samples, and a file that shows the same size twice is confirmed at the second
  sample. The first sample is only recorded: no size equals the initial \<open>-1\<close>.
\<close>

theorem stable_only_from_second_sample:
  "(timeout \<le> 1 \<longrightarrow> fst (wait_until_file_stable stat p timeout) \<noteq> Inr True) \<and>
   (timeout \<le> 1 \<and> (0 < timeout \<longrightarrow> stat p 0 = Inr c)
      \<longrightarrow> wait_until_file_stable stat p timeout = (Inr False, nat timeout)) \<and>
   (fst (wait_until_file_stable stat p timeout) = Inr True
      \<longrightarrow> 2 \<le> snd (wait_until_file_stable stat p timeout)) \<and>
   (stat p 0 = Inr c \<and> stat p 1 = Inr c \<and> 2 \<le> timeout
      \<longrightarrow> wait_until_file_stable stat p timeout = (Inr True, 2)) \<and>
   (stat p 0 = Inr c
      \<longrightarrow> wait_loop stat p (Suc n) 0 (- 1) = wait_loop stat p n 1 (int c))"
proof (intro conjI impI)
  assume t: "timeout \<le> 1"
  show "fst (wait_until_file_stable stat p timeout) \<noteq> Inr True"
  proof
    assume "fst (wait_until_file_stable stat p timeout) = Inr True"
    then have "2 \<le> snd (wait_until_file_stable stat p timeout)" by (rule wait_true_two_samples)
    moreover have "snd (wait_until_file_stable stat p timeout) \<le> nat timeout"
      using wait_loop_samples [of 0 stat p "nat timeout" "- 1"]
      by (simp add: wait_until_file_stable_def)
    ultimately show False using t by simp
  qed
next
  assume a: "timeout \<le> 1 \<and> (0 < timeout \<longrightarrow> stat p 0 = Inr c)"
  have small: "j = 0" if "j < nat timeout" for j using that a by linarith
  have "wait_loop stat p (nat timeout) 0 (- 1) = (Inr False, 0 + nat timeout)"
    by (rule wait_loop_never_stable [where s = "\<lambda>_. c"]) (use a small in auto)
  then show "wait_until_file_stable stat p timeout = (Inr False, nat timeout)"
    by (simp add: wait_until_file_stable_def)
next
  assume "fst (wait_until_file_stable stat p timeout) = Inr True"
  then show "2 \<le> snd (wait_until_file_stable stat p timeout)" by (rule wait_true_two_samples)
next
  assume a: "stat p 0 = Inr c \<and> stat p 1 = Inr c \<and> 2 \<le> timeout"
  have "wait_loop stat p (nat timeout) 0 (- 1) = (Inr True, 0 + 0 + 2)"
    by (rule wait_loop_stable_at [where s = "\<lambda>_. c"]) (use a in \<open>auto simp: le_Suc_eq\<close>)
  then show "wait_until_file_stable stat p timeout = (Inr True, 2)"
    by (simp add: wait_until_file_stable_def)
next
  assume "stat p 0 = Inr c"
  then show "wait_loop stat p (Suc n) 0 (- 1) = wait_loop stat p n 1 (int c)" by simp
qed

theorem stable_only_from_second_sample_witness:
  "(1::int) \<le> 1 \<and>
   wait_until_file_stable steady (joinpath WATCH_FOLDER ''x.jpg'') 1 = (Inr False, 1) \<and>
   fst (wait_until_file_stable steady (joinpath WATCH_FOLDER ''x.jpg'') 1) \<noteq> Inr True \<and>
   steady (joinpath WATCH_FOLDER ''x.jpg'') 0 = Inr 100 \<and>
   steady (joinpath WATCH_FOLDER ''x.jpg'') 1 = Inr 100 \<and> (2::int) \<le> 2 \<and>
   wait_until_file_stable steady (joinpath WATCH_FOLDER ''x.jpg'') 2 = (Inr True, 2) \<and>
   fst (wait_until_file_stable steady (joinpath WATCH_FOLDER ''x.jpg'') 2) = Inr True \<and>
   2 \<le> snd (wait_until_file_stable steady (joinpath WATCH_FOLDER ''x.jpg'') 2)"
proof -
  let ?p = "joinpath WATCH_FOLDER ''x.jpg''"
  have st: "steady ?p 0 = Inr 100" "steady ?p 1 = Inr 100" by (simp_all add: steady_def)
  have 1: "wait_until_file_stable steady ?p 1 = (Inr False, 1)"
    using stable_only_from_second_sample [of 1 steady ?p 100] st by simp
  have 2: "fst (wait_until_file_stable steady ?p 1) \<noteq> Inr True"
    using stable_only_from_second_sample [of 1 steady ?p] by simp
  have 3: "wait_until_file_stable steady ?p 2 = (Inr True, 2)"
    using stable_only_from_second_sample [of 2 steady ?p 100] st by simp
  then have 4: "fst (wait_until_file_stable steady ?p 2) = Inr True" by simp
  have 5: "2 \<le> snd (wait_until_file_stable steady ?p 2)"
    using stable_only_from_second_sample [of 2 steady ?p] 4 by blast
  show ?thesis using st 1 2 3 4 5 by simp
qed

text \<open>
  Claim C2, as the code has it. A read error is not caught. When the sample number
  \<open>i\<close> is the first that cannot be read, and no two consecutive samples before it were
  equal, \<open>wait_until_file_stable\<close> raises that error at that sample instead of
  sampling on, and \<open>on_created\<close> lets it escape, with the files as they were.
\<close>

theorem read_error_escapes:
  "((\<forall>j < i. stat p j = Inr (s j)) \<and> (\<forall>j. Suc j < i \<longrightarrow> s j \<noteq> s (Suc j)) \<and>
    stat p i = Inl e \<and> int i < timeout
      \<longrightarrow> wait_until_file_stable stat p timeout = (Inl e, Suc i)) \<and>
   (accepted ev \<and> (\<forall>j < i. stat (src_path ev) j = Inr (s j)) \<and>
    (\<forall>j. Suc j < i \<longrightarrow> s j \<noteq> s (Suc j)) \<and> stat (src_path ev) i = Inl e \<and> i < 10
      \<longrightarrow> on_created stat run ev w = (Inl e, print (NewLabel (name (src_path ev))) w) \<and>
          files (snd (on_created stat run ev w)) = files w)"
proof (intro conjI impI)
  assume a: "(\<forall>j < i. stat p j = Inr (s j)) \<and> (\<forall>j. Suc j < i \<longrightarrow> s j \<noteq> s (Suc j)) \<and>
    stat p i = Inl e \<and> int i < timeout"
  have "wait_loop stat p (nat timeout) 0 (- 1) = (Inl e, Suc (0 + i))"
    by (rule wait_loop_read_error [where s = s]) (use a in auto)
  then show "wait_until_file_stable stat p timeout = (Inl e, Suc i)"
    by (simp add: wait_until_file_stable_def)
next
  assume a: "accepted ev \<and> (\<forall>j < i. stat (src_path ev) j = Inr (s j)) \<and>
    (\<forall>j. Suc j < i \<longrightarrow> s j \<noteq> s (Suc j)) \<and> stat (src_path ev) i = Inl e \<and> i < 10"
  have "wait_loop stat (src_path ev) (nat 10) 0 (- 1) = (Inl e, Suc (0 + i))"
    by (rule wait_loop_read_error [where s = s]) (use a in auto)
  then have "fst (wait_until_file_stable stat (src_path ev) 10) = Inl e"
    by (simp add: wait_until_file_stable_def)
  with a have *: "on_created stat run ev w = (Inl e, print (NewLabel (name (src_path ev))) w)"
    by (intro on_created_probe_error) simp_all
  then show "on_created stat run ev w = (Inl e, print (NewLabel (name (src_path ev))) w)" .
  from * show "files (snd (on_created stat run ev w)) = files w" by (simp add: print_def)
qed

theorem read_error_escapes_witness:
  "removed_after_first (joinpath WATCH_FOLDER ''x.jpg'') 0 = Inr 100 \<and>
   removed_after_first (joinpath WATCH_FOLDER ''x.jpg'') 1 = Inl OSError \<and> int 1 < 10 \<and>
   wait_until_file_stable removed_after_first (joinpath WATCH_FOLDER ''x.jpg'') 10 = (Inl OSError, 2) \<and>
   accepted (created ''x.jpg'') \<and>
   fst (on_created removed_after_first run_ok (created ''x.jpg'') (folder_with ''x.jpg'')) = Inl OSError"
proof -
  let ?p = "joinpath WATCH_FOLDER ''x.jpg''"
  have r: "\<forall>j < 1. removed_after_first ?p j = Inr 100" "removed_after_first ?p 1 = Inl OSError"
    "\<forall>j < 1. removed_after_first (src_path (created ''x.jpg'')) j = Inr 100"
    "removed_after_first (src_path (created ''x.jpg'')) 1 = Inl OSError"
    by (simp_all add: removed_after_first_def)
  have acc: "accepted (created ''x.jpg'')" by code_simp
  have 1: "wait_until_file_stable removed_after_first ?p 10 = (Inl OSError, 2)"
    using read_error_escapes [of 1 removed_after_first ?p "\<lambda>_. 100" OSError 10] r by simp
  have 2: "fst (on_created removed_after_first run_ok (created ''x.jpg'') (folder_with ''x.jpg'')) = Inl OSError"
    using read_error_escapes [of 1 removed_after_first "src_path (created ''x.jpg'')" "\<lambda>_. 100" OSError 10
        "created ''x.jpg''" run_ok "folder_with ''x.jpg''"] r acc by simp
  show ?thesis using r acc 1 2 by simp
qed

text \<open>
  The claim as written fails: for a file removed after its first sample the probe
  raises at the second sample, and so does \<open>on_created\<close>.
\<close>

theorem removed_file_raises:
  "wait_until_file_stable removed_after_first (joinpath WATCH_FOLDER ''x.jpg'') 10 = (Inl OSError, 2) \<and>
   fst (on_created removed_after_first run_ok (created ''x.jpg'') (folder_with ''x.jpg'')) = Inl OSError"
  by code_simp

section \<open>Lock manager and controller\<close>

lemma image_has_name: "is_image_file p \<Longrightarrow> name p \<noteq> [] \<and> suffix_of p \<noteq> []"
proof -
  assume "is_image_file p"
  then have "suffix_of p \<noteq> []"
    by (auto simp: is_image_file_def SUPPORTED_EXTENSIONS_def lower_def)
  then show ?thesis using stem_suffix [of p] by auto
qed

lemma suffix_no_trailing_dot:
  assumes "suffix_of p \<noteq> []"
  shows "\<not> (2 \<le> length (name p) \<and> last (name p) = CHR ''.'')"
proof -
  obtain r where r: "suffix_of p = CHR ''.'' # r" "r \<noteq> []" "CHR ''.'' \<notin> set r"
    using suffix_shape [OF assms] by blast
  have "name p = stem p @ CHR ''.'' # r" using stem_suffix [of p] r(1) by simp
  then have "last (name p) = last r" using r(2) by simp
  moreover have "last r \<in> set r" using r(2) by simp
  ultimately show ?thesis using r(3) by auto
qed

lemma with_suffix_lock:
  assumes "name p \<noteq> []"
  shows "with_suffix p (suffix_of p @ LOCK_SUFFIX) = Inr (marker p)"
proof -
  have "prefix ''.'' (suffix_of p @ LOCK_SUFFIX)"
  proof (cases "suffix_of p = []")
    case True
    then show ?thesis by (simp add: LOCK_SUFFIX_def)
  next
    case False
    then obtain r where "suffix_of p = CHR ''.'' # r" using suffix_shape by blast
    then show ?thesis by simp
  qed
  moreover have "suffix_of p @ LOCK_SUFFIX \<noteq> ''.''"
    by (auto simp: LOCK_SUFFIX_def append_eq_Cons_conv)
  moreover have "stem p @ suffix_of p @ LOCK_SUFFIX = name p @ LOCK_SUFFIX"
    using stem_suffix [of p] by (metis append_assoc)
  ultimately show ?thesis using assms by (simp add: with_suffix_def)
qed

lemma file_lock_held:
  "name p \<noteq> [] \<Longrightarrow> marker p \<in> files w \<Longrightarrow> file_lock p body w = (Inl RuntimeError, w)"
  by (simp add: file_lock_def with_suffix_lock)

lemma file_lock_free:
  assumes "name p \<noteq> []" "marker p \<notin> files w"
  shows "fst (file_lock p body w) = fst (body (w\<lparr>files := insert (marker p) (files w)\<rparr>)) \<and>
         files (snd (file_lock p body w)) =
           files (snd (body (w\<lparr>files := insert (marker p) (files w)\<rparr>))) - {marker p} \<and>
         out (snd (file_lock p body w)) = out (snd (body (w\<lparr>files := insert (marker p) (files w)\<rparr>)))"
  using assms by (auto simp: file_lock_def with_suffix_lock split: prod.splits)

lemma files_print: "files (print m w) = files w"
  by (simp add: print_def)

lemma on_created_stable:
  assumes "accepted ev" "fst (wait_until_file_stable stat (src_path ev) 10) = Inr True"
  shows "on_created stat run ev w =
     (case file_lock (src_path ev) (process_file run (src_path ev))
             (print (NewLabel (name (src_path ev))) w) of
        (Inr u, w2) \<Rightarrow> (Inr (), w2)
      | (Inl e, w2) \<Rightarrow>
          if e = RuntimeError then (Inr (), print (Locked (name (src_path ev))) w2)
          else if e = KeyboardInterrupt then (Inl e, w2)
          else (Inr (), print (Unexpected e) w2))"
  using assms by (simp add: on_created_def Let_def)

lemma on_created_files:
  assumes "accepted ev" "fst (wait_until_file_stable stat (src_path ev) 10) = Inr True"
  shows "files (snd (on_created stat run ev w)) =
         files (snd (file_lock (src_path ev) (process_file run (src_path ev))
             (print (NewLabel (name (src_path ev))) w)))"
  unfolding on_created_stable [OF assms]
  by (auto simp: files_print split: prod.splits sum.splits)

lemma marker_differs: "name p \<noteq> [] \<Longrightarrow> marker p \<noteq> p"
proof
  assume n: "name p \<noteq> []" and "marker p = p"
  then have "segs (marker p) = segs p" by simp
  then have "butlast (segs p) @ [name p @ LOCK_SUFFIX] = segs p" by simp
  then have "last (segs p) = name p @ LOCK_SUFFIX" by (metis last_snoc)
  moreover have "last (segs p) = name p" using n by (auto simp: name_def split: if_splits)
  ultimately show False by (simp add: LOCK_SUFFIX_def)
qed

lemma marker_not_joined: "name p \<noteq> [] \<Longrightarrow> marker p \<noteq> joinpath folder (name p)"
proof
  assume n: "name p \<noteq> []" and "marker p = joinpath folder (name p)"
  then have "segs (marker p) = segs (joinpath folder (name p))" by simp
  then have "butlast (segs p) @ [name p @ LOCK_SUFFIX] = segs folder @ [name p]"
    using n by (simp add: joinpath_def)
  then have "name p @ LOCK_SUFFIX = name p" by simp
  then show False by (simp add: LOCK_SUFFIX_def)
qed

lemma in_parents_join: "nm \<noteq> [] \<Longrightarrow> in_parents folder (joinpath folder nm)"
  by (simp add: in_parents_def joinpath_def)

lemma name_join: "nm \<noteq> [] \<Longrightarrow> name (joinpath folder nm) = nm"
  by (simp add: name_def joinpath_def)

lemma on_created_ignores_folder:
  "in_parents PROCESSED_FOLDER p \<or> in_parents RETRY_FOLDER p \<Longrightarrow>
   on_created stat run \<lparr>is_directory = d, src_path = p\<rparr> w = (Inr (), w)"
  by (simp add: on_created_def)

lemma process_file_raises:
  "run p = Inl e \<Longrightarrow> process_file run p w = (Inl e, print Running w)"
  by (simp add: process_file_def Let_def)

lemma process_file_success:
  assumes "run p = Inr result" "returncode result = 0" "p \<in> files w"
  shows "process_file run p w =
     (Inr (), print (ProcessedTo (joinpath PROCESSED_FOLDER (name p)))
                ((print Running w)\<lparr>files :=
                   insert (joinpath PROCESSED_FOLDER (name p)) (files w - {p})\<rparr>))"
  using assms by (simp add: process_file_def Let_def move_def print_def)

lemma process_file_retry:
  assumes "run p = Inr result" "returncode result \<noteq> 0" "p \<in> files w"
    and "get_retry_count p = Inr c" "c < MAX_RETRIES" "increment_retry p = Inr q"
  shows "process_file run p w =
     (Inr (), print (MovedToRetry (joinpath RETRY_FOLDER (name q)))
                ((print (Stderr (stderr result)) (print (Failed (c + 1)) (print Running w)))
                   \<lparr>files := insert (joinpath RETRY_FOLDER (name q)) (files w - {p})\<rparr>))"
  using assms by (simp add: process_file_def Let_def move_def print_def)

lemma process_file_stuck:
  assumes "run p = Inr result" "returncode result \<noteq> 0"
    and "get_retry_count p = Inr c" "\<not> c < MAX_RETRIES"
  shows "process_file run p w =
     (Inr (), print (MaxRetries (name p))
                (print (Stderr (stderr result)) (print (Failed (c + 1)) (print Running w))))"
  using assms by (simp add: process_file_def Let_def)

lemma same_name_same_parts:
  "name p = name y \<Longrightarrow> stem p = stem y \<and> suffix_of p = suffix_of y \<and>
     get_retry_count p = get_retry_count y"
  by (simp add: stem_def suffix_of_def get_retry_count_def)

text \<open>
  Claim C5. Entering \<open>file_lock\<close> while the marker exists raises the
  \<open>RuntimeError\<close> that stands for an already locked file, and changes nothing. In
  \<open>on_created\<close> that error is caught: the call returns normally, the files are as
  they were, and the console shows the file as locked with no extraction started. Once a
  \<open>with\<close> block on the path has ended the marker is gone, and entering
  \<open>file_lock\<close> again runs its body.
\<close>

theorem locked_file_is_skipped:
  "(name p \<noteq> [] \<and> marker p \<in> files w \<longrightarrow> file_lock p body w = (Inl RuntimeError, w)) \<and>
   (accepted ev \<and> fst (wait_until_file_stable stat (src_path ev) 10) = Inr True \<and>
    marker (src_path ev) \<in> files w
      \<longrightarrow> (\<exists>w'. on_created stat run ev w = (Inr (), w') \<and> files w' = files w \<and>
                out w' = out w @ [NewLabel (name (src_path ev)), Locked (name (src_path ev))])) \<and>
   (name p \<noteq> [] \<and> marker p \<notin> files w
      \<longrightarrow> marker p \<notin> files (snd (file_lock p body w)) \<and>
          fst (file_lock p body' (snd (file_lock p body w))) =
            fst (body' ((snd (file_lock p body w))
                   \<lparr>files := insert (marker p) (files (snd (file_lock p body w)))\<rparr>)))"
proof (intro conjI impI)
  assume "name p \<noteq> [] \<and> marker p \<in> files w"
  then show "file_lock p body w = (Inl RuntimeError, w)" by (simp add: file_lock_held)
next
  let ?p = "src_path ev"
  assume a: "accepted ev \<and> fst (wait_until_file_stable stat ?p 10) = Inr True \<and>
    marker ?p \<in> files w"
  then have n: "name ?p \<noteq> []" using image_has_name by blast
  have "marker ?p \<in> files (print (NewLabel (name ?p)) w)" using a by (simp add: files_print)
  then have "file_lock ?p (process_file run ?p) (print (NewLabel (name ?p)) w) =
      (Inl RuntimeError, print (NewLabel (name ?p)) w)"
    using n by (rule file_lock_held [rotated])
  then have "on_created stat run ev w =
      (Inr (), print (Locked (name ?p)) (print (NewLabel (name ?p)) w))"
    using a by (simp add: on_created_stable)
  then show "\<exists>w'. on_created stat run ev w = (Inr (), w') \<and> files w' = files w \<and>
      out w' = out w @ [NewLabel (name ?p), Locked (name ?p)]"
    by (simp add: print_def)
next
  assume a: "name p \<noteq> [] \<and> marker p \<notin> files w"
  then have 1: "marker p \<notin> files (snd (file_lock p body w))"
    using file_lock_free [of p w body] by simp
  then show "marker p \<notin> files (snd (file_lock p body w))" .
  show "fst (file_lock p body' (snd (file_lock p body w))) =
      fst (body' ((snd (file_lock p body w))
             \<lparr>files := insert (marker p) (files (snd (file_lock p body w)))\<rparr>))"
    using file_lock_free [of p "snd (file_lock p body w)" body'] a 1 by simp
qed

theorem locked_file_is_skipped_witness:
  "name (joinpath WATCH_FOLDER ''x.jpg'') \<noteq> [] \<and>
   marker (joinpath WATCH_FOLDER ''x.jpg'') \<in> files (locked_folder_with ''x.jpg'') \<and>
   file_lock (joinpath WATCH_FOLDER ''x.jpg'') (removes_marker (joinpath WATCH_FOLDER ''x.jpg''))
       (locked_folder_with ''x.jpg'') = (Inl RuntimeError, locked_folder_with ''x.jpg'') \<and>
   accepted (created ''x.jpg'') \<and>
   fst (wait_until_file_stable steady (src_path (created ''x.jpg'')) 10) = Inr True \<and>
   marker (src_path (created ''x.jpg'')) \<in> files (locked_folder_with ''x.jpg'') \<and>
   fst (on_created steady run_ok (created ''x.jpg'') (locked_folder_with ''x.jpg'')) = Inr () \<and>
   files (snd (on_created steady run_ok (created ''x.jpg'') (locked_folder_with ''x.jpg''))) =
     files (locked_folder_with ''x.jpg'') \<and>
   marker (joinpath WATCH_FOLDER ''x.jpg'') \<notin> files (folder_with ''x.jpg'') \<and>
   fst (file_lock (joinpath WATCH_FOLDER ''x.jpg'') (process_file run_ok (joinpath WATCH_FOLDER ''x.jpg''))
         (snd (file_lock (joinpath WATCH_FOLDER ''x.jpg'')
                 (removes_marker (joinpath WATCH_FOLDER ''x.jpg'')) (folder_with ''x.jpg'')))) = Inr ()"
proof -
  let ?p = "joinpath WATCH_FOLDER ''x.jpg''"
  let ?w1 = "snd (file_lock ?p (removes_marker ?p) (folder_with ''x.jpg''))"
  have n: "name ?p \<noteq> []" by code_simp
  have held: "marker ?p \<in> files (locked_folder_with ''x.jpg'')" by code_simp
  have held': "marker (src_path (created ''x.jpg'')) \<in> files (locked_folder_with ''x.jpg'')" by code_simp
  have free: "marker ?p \<notin> files (folder_with ''x.jpg'')" by code_simp
  have acc: "accepted (created ''x.jpg'')" by code_simp
  have st: "fst (wait_until_file_stable steady (src_path (created ''x.jpg'')) 10) = Inr True" by code_simp
  note held_fails = locked_file_is_skipped
    [of ?p "locked_folder_with ''x.jpg''" "removes_marker ?p" "created ''x.jpg''" steady run_ok,
      THEN conjunct1, rule_format]
  note skipped = locked_file_is_skipped
    [of ?p "locked_folder_with ''x.jpg''" "removes_marker ?p" "created ''x.jpg''" steady run_ok,
      THEN conjunct2, THEN conjunct1, rule_format]
  note again = locked_file_is_skipped
    [of ?p "folder_with ''x.jpg''" "removes_marker ?p" "created ''x.jpg''" steady run_ok
      "process_file run_ok ?p", THEN conjunct2, THEN conjunct2, rule_format]
  have 1: "file_lock ?p (removes_marker ?p) (locked_folder_with ''x.jpg'') =
      (Inl RuntimeError, locked_folder_with ''x.jpg'')"
    by (rule held_fails) (rule conjI [OF n held])
  obtain w' where w': "on_created steady run_ok (created ''x.jpg'') (locked_folder_with ''x.jpg'') = (Inr (), w')"
      "files w' = files (locked_folder_with ''x.jpg'')"
    using skipped [OF conjI [OF acc conjI [OF st held']]] by blast
  then have 2: "fst (on_created steady run_ok (created ''x.jpg'') (locked_folder_with ''x.jpg'')) = Inr () \<and>
     files (snd (on_created steady run_ok (created ''x.jpg'') (locked_folder_with ''x.jpg''))) =
     files (locked_folder_with ''x.jpg'')"
    by simp
  have "fst (file_lock ?p (process_file run_ok ?p) ?w1) =
      fst (process_file run_ok ?p (?w1\<lparr>files := insert (marker ?p) (files ?w1)\<rparr>))"
    using again [OF conjI [OF n free]] by (rule conjunct2)
  moreover have "fst (process_file run_ok ?p (?w1\<lparr>files := insert (marker ?p) (files ?w1)\<rparr>)) = Inr ()"
    by code_simp
  ultimately have 3: "fst (file_lock ?p (process_file run_ok ?p) ?w1) = Inr ()" by simp
  show ?thesis
    by (intro conjI n held held' free st 1 3 acc [THEN conjunct1] acc [THEN conjunct2, THEN conjunct1]
        acc [THEN conjunct2, THEN conjunct2, THEN conjunct1]
        acc [THEN conjunct2, THEN conjunct2, THEN conjunct2] 2 [THEN conjunct1] 2 [THEN conjunct2])
qed

text \<open>
  Claim C6. Whatever the body of the \<open>with\<close> block does and however it ends, the
  marker is absent afterwards and the block ends the way the body did; when the body has
  already removed the marker, the release changes nothing and raises nothing. In
  \<open>on_created\<close> the marker is absent afterwards for every outcome of the extraction:
  success, failure, or an exception out of the call.
\<close>

theorem lock_released_on_every_exit:
  "(name p \<noteq> [] \<and> marker p \<notin> files w
      \<longrightarrow> marker p \<notin> files (snd (file_lock p body w)) \<and>
          fst (file_lock p body w) = fst (body (w\<lparr>files := insert (marker p) (files w)\<rparr>)) \<and>
          (marker p \<notin> files (snd (body (w\<lparr>files := insert (marker p) (files w)\<rparr>)))
             \<longrightarrow> snd (file_lock p body w) = snd (body (w\<lparr>files := insert (marker p) (files w)\<rparr>)))) \<and>
   (accepted ev \<and> fst (wait_until_file_stable stat (src_path ev) 10) = Inr True \<and>
    marker (src_path ev) \<notin> files w
      \<longrightarrow> marker (src_path ev) \<notin> files (snd (on_created stat run ev w)))"
proof (intro conjI impI)
  assume a: "name p \<noteq> [] \<and> marker p \<notin> files w"
  show "marker p \<notin> files (snd (file_lock p body w))"
    using file_lock_free [of p w body] a by simp
  show "fst (file_lock p body w) = fst (body (w\<lparr>files := insert (marker p) (files w)\<rparr>))"
    using file_lock_free [of p w body] a by simp
  assume "marker p \<notin> files (snd (body (w\<lparr>files := insert (marker p) (files w)\<rparr>)))"
  then show "snd (file_lock p body w) = snd (body (w\<lparr>files := insert (marker p) (files w)\<rparr>))"
    using a by (cases "body (w\<lparr>files := insert (marker p) (files w)\<rparr>)")
      (simp add: file_lock_def with_suffix_lock)
next
  let ?p = "src_path ev"
  assume a: "accepted ev \<and> fst (wait_until_file_stable stat ?p 10) = Inr True \<and>
    marker ?p \<notin> files w"
  then have n: "name ?p \<noteq> []" using image_has_name by blast
  have "marker ?p \<notin> files (print (NewLabel (name ?p)) w)" using a by (simp add: files_print)
  then have "marker ?p \<notin> files (snd (file_lock ?p (process_file run ?p) (print (NewLabel (name ?p)) w)))"
    using file_lock_free [OF n, of "print (NewLabel (name ?p)) w" "process_file run ?p"] by simp
  then show "marker ?p \<notin> files (snd (on_created stat run ev w))"
    using a by (simp add: on_created_files)
qed

theorem lock_released_on_every_exit_witness:
  "name (joinpath WATCH_FOLDER ''x.jpg'') \<noteq> [] \<and>
   marker (joinpath WATCH_FOLDER ''x.jpg'') \<notin> files (folder_with ''x.jpg'') \<and>
   marker (joinpath WATCH_FOLDER ''x.jpg'') \<notin>
     files (snd (removes_marker (joinpath WATCH_FOLDER ''x.jpg'')
       ((folder_with ''x.jpg'')\<lparr>files := insert (marker (joinpath WATCH_FOLDER ''x.jpg''))
          (files (folder_with ''x.jpg''))\<rparr>))) \<and>
   file_lock (joinpath WATCH_FOLDER ''x.jpg'') (removes_marker (joinpath WATCH_FOLDER ''x.jpg''))
       (folder_with ''x.jpg'') = (Inl OSError, folder_with ''x.jpg'') \<and>
   accepted (created ''x.jpg'') \<and>
   fst (wait_until_file_stable steady (src_path (created ''x.jpg'')) 10) = Inr True \<and>
   marker (src_path (created ''x.jpg'')) \<notin> files (folder_with ''x.jpg'') \<and>
   marker (src_path (created ''x.jpg'')) \<notin>
     files (snd (on_created steady run_ok (created ''x.jpg'') (folder_with ''x.jpg''))) \<and>
   marker (src_path (created ''x.jpg'')) \<notin>
     files (snd (on_created steady run_fail (created ''x.jpg'') (folder_with ''x.jpg''))) \<and>
   marker (src_path (created ''x.jpg'')) \<notin>
     files (snd (on_created steady run_raises (created ''x.jpg'') (folder_with ''x.jpg'')))"
proof -
  let ?p = "joinpath WATCH_FOLDER ''x.jpg''" and ?w = "folder_with ''x.jpg''"
  let ?b = "removes_marker ?p (?w\<lparr>files := insert (marker ?p) (files ?w)\<rparr>)"
  have n: "name ?p \<noteq> []" by code_simp
  have free: "marker ?p \<notin> files ?w" by code_simp
  have free': "marker (src_path (created ''x.jpg'')) \<notin> files ?w" by code_simp
  have gone: "marker ?p \<notin> files (snd ?b)" by code_simp
  have b: "?b = (Inl OSError, ?w)" by code_simp
  have acc: "accepted (created ''x.jpg'')" by code_simp
  have st: "fst (wait_until_file_stable steady (src_path (created ''x.jpg'')) 10) = Inr True" by code_simp
  note released = lock_released_on_every_exit
    [of ?p ?w "removes_marker ?p" "created ''x.jpg''" steady run_ok, THEN conjunct1, rule_format,
      OF conjI [OF n free]]
  have "fst (file_lock ?p (removes_marker ?p) ?w) = fst ?b"
    using released by (rule conjunct2 [THEN conjunct1])
  moreover have "snd (file_lock ?p (removes_marker ?p) ?w) = snd ?b"
    using released [THEN conjunct2, THEN conjunct2, rule_format, OF gone] .
  ultimately have 1: "file_lock ?p (removes_marker ?p) ?w = (Inl OSError, ?w)"
    unfolding b by (simp add: prod_eq_iff)
  have 2: "marker (src_path (created ''x.jpg'')) \<notin>
     files (snd (on_created steady run (created ''x.jpg'') ?w))" for run
    by (rule lock_released_on_every_exit
        [of ?p ?w "removes_marker ?p" "created ''x.jpg''" steady run, THEN conjunct2, rule_format])
      (rule conjI [OF acc conjI [OF st free']])
  show ?thesis
    by (intro conjI n free free' gone st 1 2 acc [THEN conjunct1] acc [THEN conjunct2, THEN conjunct1]
        acc [THEN conjunct2, THEN conjunct2, THEN conjunct1]
        acc [THEN conjunct2, THEN conjunct2, THEN conjunct2])
qed

section \<open>Controller: the three outcomes\<close>

text \<open>
  Claim C7. When the extraction returns the exit status 0, \<open>process_file\<close> moves the
  file to the processed folder under the name it had, and prints that it did. The
  destination lies under the processed folder, so a later event for it is dropped by
  \<open>on_created\<close> without any effect. Seen from \<open>on_created\<close>, for an accepted event
  on a present, stable and unlocked file: the call returns normally and the only change
  to the files is that move.
\<close>

theorem success_moves_to_processed:
  "(p \<in> files w \<and> name p \<noteq> [] \<and> run p = Inr result \<and> returncode result = 0
      \<longrightarrow> (\<exists>w'. process_file run p w = (Inr (), w') \<and>
             files w' = insert (joinpath PROCESSED_FOLDER (name p)) (files w - {p}) \<and>
             out w' = out w @ [Running, ProcessedTo (joinpath PROCESSED_FOLDER (name p))]) \<and>
          name (joinpath PROCESSED_FOLDER (name p)) = name p \<and>
          in_parents PROCESSED_FOLDER (joinpath PROCESSED_FOLDER (name p)) \<and>
          on_created stat' run'
            \<lparr>is_directory = d, src_path = joinpath PROCESSED_FOLDER (name p)\<rparr> w'' = (Inr (), w'')) \<and>
   (accepted ev \<and> fst (wait_until_file_stable stat (src_path ev) 10) = Inr True \<and>
    src_path ev \<in> files w \<and> marker (src_path ev) \<notin> files w \<and>
    run (src_path ev) = Inr result \<and> returncode result = 0
      \<longrightarrow> fst (on_created stat run ev w) = Inr () \<and>
          files (snd (on_created stat run ev w)) =
            insert (joinpath PROCESSED_FOLDER (name (src_path ev))) (files w - {src_path ev}))"
proof (intro conjI impI)
  assume a: "p \<in> files w \<and> name p \<noteq> [] \<and> run p = Inr result \<and> returncode result = 0"
  let ?d = "joinpath PROCESSED_FOLDER (name p)"
  have "process_file run p w =
     (Inr (), print (ProcessedTo ?d) ((print Running w)\<lparr>files := insert ?d (files w - {p})\<rparr>))"
    using a process_file_success [of run p result w] by blast
  then show "\<exists>w'. process_file run p w = (Inr (), w') \<and>
      files w' = insert ?d (files w - {p}) \<and> out w' = out w @ [Running, ProcessedTo ?d]"
    by (simp add: print_def)
  show "name ?d = name p" using a by (simp add: name_join)
  show inp: "in_parents PROCESSED_FOLDER ?d" using a by (simp add: in_parents_join)
  show "on_created stat' run' \<lparr>is_directory = d, src_path = ?d\<rparr> w'' = (Inr (), w'')"
    using inp by (simp add: on_created_ignores_folder)
next
  let ?p = "src_path ev"
  let ?d = "joinpath PROCESSED_FOLDER (name ?p)"
  let ?w1 = "print (NewLabel (name ?p)) w"
  let ?w2 = "?w1\<lparr>files := insert (marker ?p) (files ?w1)\<rparr>"
  assume a: "accepted ev \<and> fst (wait_until_file_stable stat ?p 10) = Inr True \<and>
    ?p \<in> files w \<and> marker ?p \<notin> files w \<and> run ?p = Inr result \<and> returncode result = 0"
  then have n: "name ?p \<noteq> []" using image_has_name by blast
  have free: "marker ?p \<notin> files ?w1" using a by (simp add: files_print)
  have "?p \<in> files ?w2" using a by (simp add: files_print)
  then have pf: "process_file run ?p ?w2 =
     (Inr (), print (ProcessedTo ?d) ((print Running ?w2)\<lparr>files := insert ?d (files ?w2 - {?p})\<rparr>))"
    using a process_file_success [of run ?p result ?w2] by blast
  note fl = file_lock_free [OF n free, of "process_file run ?p"]
  have r: "fst (file_lock ?p (process_file run ?p) ?w1) = Inr ()" using fl pf by simp
  have "files (snd (file_lock ?p (process_file run ?p) ?w1)) =
        insert ?d (insert (marker ?p) (files w) - {?p}) - {marker ?p}"
    using fl pf by (simp add: files_print)
  also have "\<dots> = insert ?d (files w - {?p})"
    using a marker_not_joined [OF n, of PROCESSED_FOLDER] marker_differs [OF n] by auto
  finally have f: "files (snd (file_lock ?p (process_file run ?p) ?w1)) = insert ?d (files w - {?p})" .
  show "fst (on_created stat run ev w) = Inr ()"
    using a r by (cases "file_lock ?p (process_file run ?p) ?w1") (simp add: on_created_stable)
  show "files (snd (on_created stat run ev w)) = insert ?d (files w - {?p})"
    using a f by (simp add: on_created_files)
qed

theorem success_moves_to_processed_witness:
  "joinpath WATCH_FOLDER ''x.jpg'' \<in> files (folder_with ''x.jpg'') \<and>
   name (joinpath WATCH_FOLDER ''x.jpg'') \<noteq> [] \<and>
   run_ok (joinpath WATCH_FOLDER ''x.jpg'') = Inr \<lparr>returncode = 0, stderr = []\<rparr> \<and>
   returncode \<lparr>returncode = 0, stderr = []\<rparr> = 0 \<and>
   fst (process_file run_ok (joinpath WATCH_FOLDER ''x.jpg'') (folder_with ''x.jpg'')) = Inr () \<and>
   files (snd (process_file run_ok (joinpath WATCH_FOLDER ''x.jpg'') (folder_with ''x.jpg''))) =
     {joinpath PROCESSED_FOLDER ''x.jpg''} \<and>
   name (joinpath PROCESSED_FOLDER ''x.jpg'') = name (joinpath WATCH_FOLDER ''x.jpg'') \<and>
   on_created steady run_ok \<lparr>is_directory = False, src_path = joinpath PROCESSED_FOLDER ''x.jpg''\<rparr>
     (folder_with ''y.jpg'') = (Inr (), folder_with ''y.jpg'') \<and>
   accepted (created ''x.jpg'') \<and>
   fst (wait_until_file_stable steady (src_path (created ''x.jpg'')) 10) = Inr True \<and>
   src_path (created ''x.jpg'') \<in> files (folder_with ''x.jpg'') \<and>
   marker (src_path (created ''x.jpg'')) \<notin> files (folder_with ''x.jpg'') \<and>
   fst (on_created steady run_ok (created ''x.jpg'') (folder_with ''x.jpg'')) = Inr () \<and>
   files (snd (on_created steady run_ok (created ''x.jpg'') (folder_with ''x.jpg''))) =
     {joinpath PROCESSED_FOLDER ''x.jpg''}"
proof -
  let ?p = "joinpath WATCH_FOLDER ''x.jpg''" and ?w = "folder_with ''x.jpg''"
  let ?r = "\<lparr>returncode = 0, stderr = []\<rparr>"
  let ?e = "created ''x.jpg''"
  have here: "?p \<in> files ?w" by code_simp
  have n: "name ?p \<noteq> []" by code_simp
  have ok: "run_ok ?p = Inr ?r" by (simp add: run_ok_def)
  have z: "returncode ?r = 0" by simp
  have nm: "name ?p = ''x.jpg''" by code_simp
  have sp: "src_path ?e = ?p" by (simp add: created_def)
  have acc: "accepted ?e" by code_simp
  have st: "fst (wait_until_file_stable steady (src_path ?e) 10) = Inr True" by code_simp
  have free: "marker (src_path ?e) \<notin> files ?w" by code_simp
  have tgt: "insert (joinpath PROCESSED_FOLDER ''x.jpg'') (files ?w - {?p}) =
      {joinpath PROCESSED_FOLDER ''x.jpg''}"
    by (simp add: folder_with_def)
  note direct = success_moves_to_processed
    [where p = ?p and w = ?w and run = run_ok and result = ?r and stat' = steady and run' = run_ok
       and d = False and w'' = "folder_with ''y.jpg''",
      THEN conjunct1, rule_format, OF conjI [OF here conjI [OF n conjI [OF ok z]]]]
  obtain w' where w': "process_file run_ok ?p ?w = (Inr (), w')"
      "files w' = insert (joinpath PROCESSED_FOLDER (name ?p)) (files ?w - {?p})"
    using direct [THEN conjunct1] by blast
  have 1: "fst (process_file run_ok ?p ?w) = Inr ()" using w'(1) by simp
  have 2: "files (snd (process_file run_ok ?p ?w)) = {joinpath PROCESSED_FOLDER ''x.jpg''}"
    using w' tgt by (simp add: nm)
  have 3: "name (joinpath PROCESSED_FOLDER ''x.jpg'') = name ?p"
    using direct [THEN conjunct2, THEN conjunct1] by (simp add: nm)
  have 4: "on_created steady run_ok \<lparr>is_directory = False, src_path = joinpath PROCESSED_FOLDER ''x.jpg''\<rparr>
     (folder_with ''y.jpg'') = (Inr (), folder_with ''y.jpg'')"
    using direct [THEN conjunct2, THEN conjunct2, THEN conjunct2] by (simp add: nm)
  note watched = success_moves_to_processed
    [where ev = ?e and w = ?w and run = run_ok and result = ?r and stat = steady,
      THEN conjunct2, rule_format,
      OF conjI [OF acc conjI [OF st conjI [OF here [folded sp] conjI [OF free conjI [OF ok [folded sp] z]]]]]]
  have 5: "fst (on_created steady run_ok ?e ?w) = Inr ()" using watched by (rule conjunct1)
  have 6: "files (snd (on_created steady run_ok ?e ?w)) = {joinpath PROCESSED_FOLDER ''x.jpg''}"
    using watched [THEN conjunct2] tgt by (simp add: sp nm)
  show ?thesis
    by (intro conjI here n ok z 1 2 3 4 st here [folded sp] free 5 6 acc [THEN conjunct1]
        acc [THEN conjunct2, THEN conjunct1] acc [THEN conjunct2, THEN conjunct2, THEN conjunct1]
        acc [THEN conjunct2, THEN conjunct2, THEN conjunct2])
qed

lemma first_item_split:
  "(case split s ''__retry'' of Inl e \<Rightarrow> False | Inr parts \<Rightarrow> first_item parts = Inr base)
   \<longleftrightarrow> base = hd (split_from ''__retry'' [] s)"
proof -
  obtain a as where "split_from ''__retry'' [] s = a # as"
    using split_from_nonempty [of "''__retry''" "[]" s]
    by (cases "split_from ''__retry'' [] s") auto
  then show ?thesis by (auto simp: split_def first_item_def)
qed

text \<open>
  Claim C3. When the extraction fails on a present file whose count is below
  \<open>MAX_RETRIES\<close>, \<open>process_file\<close> moves it into the retry folder under the name
  \<open>increment_retry\<close> gives: the text before the first marker, the marker, the count
  plus one, the suffix. For a file with a suffix that name reads back the count plus
  one. With \<open>MAX_RETRIES = 3\<close>: starting from a name without marker (not ending in a
  dot), the failures number one, two and three, each on a file under the name the one
  before produced, move the file to the retry folder as \<open>__retry1\<close>, \<open>__retry2\<close>
  and \<open>__retry3\<close>. Every image file, and so every file the controller handles, has
  such a name.
\<close>

theorem failure_moves_to_retry:
  "(p \<in> files w \<and> name p \<noteq> [] \<and> run p = Inr result \<and> returncode result \<noteq> 0 \<and>
    get_retry_count p = Inr c \<and> c < MAX_RETRIES
      \<longrightarrow> (\<exists>q base w'. increment_retry p = Inr q \<and>
             (case split (stem p) ''__retry'' of
                Inl e \<Rightarrow> False
              | Inr parts \<Rightarrow> first_item parts = Inr base) \<and>
             name q = base @ ''__retry'' @ py_str (c + 1) @ suffix_of p \<and>
             process_file run p w = (Inr (), w') \<and>
             files w' = insert (joinpath RETRY_FOLDER (name q)) (files w - {p}) \<and>
             name (joinpath RETRY_FOLDER (name q)) = name q \<and>
             in_parents RETRY_FOLDER (joinpath RETRY_FOLDER (name q)) \<and>
             (suffix_of p \<noteq> []
                \<longrightarrow> get_retry_count (joinpath RETRY_FOLDER (name q)) = Inr (c + 1)))) \<and>
   (name x \<noteq> [] \<and> \<not> contains ''__retry'' (stem x) \<and>
    \<not> (2 \<le> length (name x) \<and> last (name x) = CHR ''.'') \<and> k < 3 \<and>
    name p = (if k = 0 then name x else stem x @ ''__retry'' @ py_str (int k) @ suffix_of x) \<and>
    p \<in> files w \<and> run p = Inr result \<and> returncode result \<noteq> 0
      \<longrightarrow> fst (process_file run p w) = Inr () \<and>
          files (snd (process_file run p w)) =
            insert (joinpath RETRY_FOLDER
                      (stem x @ ''__retry'' @ py_str (int k + 1) @ suffix_of x))
              (files w - {p})) \<and>
   MAX_RETRIES = 3 \<and> py_str 1 = ''1'' \<and> py_str 2 = ''2'' \<and> py_str 3 = ''3'' \<and>
   (is_image_file x \<longrightarrow> \<not> (2 \<le> length (name x) \<and> last (name x) = CHR ''.''))"
proof (intro conjI impI)
  assume a: "p \<in> files w \<and> name p \<noteq> [] \<and> run p = Inr result \<and> returncode result \<noteq> 0 \<and>
    get_retry_count p = Inr c \<and> c < MAX_RETRIES"
  let ?base = "hd (split_from ''__retry'' [] (stem p))"
  obtain q where q: "increment_retry p = Inr q"
      "name q = ?base @ ''__retry'' @ py_str (c + 1) @ suffix_of p"
    using increment_retry_name [of p c] a by blast
  let ?n = "joinpath RETRY_FOLDER (name q)"
  have nq: "name q \<noteq> []" using q(2) by simp
  have "process_file run p w =
     (Inr (), print (MovedToRetry ?n)
                ((print (Stderr (stderr result)) (print (Failed (c + 1)) (print Running w)))
                   \<lparr>files := insert ?n (files w - {p})\<rparr>))"
    using a q(1) process_file_retry [of run p result w c q] by blast
  then have pf: "\<exists>w'. process_file run p w = (Inr (), w') \<and> files w' = insert ?n (files w - {p})"
    by (simp add: print_def)
  have nn: "name ?n = name q" using nq by (rule name_join)
  have reread: "get_retry_count ?n = Inr (c + 1)" if "suffix_of p \<noteq> []"
  proof -
    have "get_retry_count q = Inr (c + 1)"
      using increment_retry_count [of p c q] a that q(1) by blast
    then show ?thesis using same_name_same_parts [OF nn] by simp
  qed
  show "\<exists>q base w'. increment_retry p = Inr q \<and>
             (case split (stem p) ''__retry'' of
                Inl e \<Rightarrow> False
              | Inr parts \<Rightarrow> first_item parts = Inr base) \<and>
             name q = base @ ''__retry'' @ py_str (c + 1) @ suffix_of p \<and>
             process_file run p w = (Inr (), w') \<and>
             files w' = insert (joinpath RETRY_FOLDER (name q)) (files w - {p}) \<and>
             name (joinpath RETRY_FOLDER (name q)) = name q \<and>
             in_parents RETRY_FOLDER (joinpath RETRY_FOLDER (name q)) \<and>
             (suffix_of p \<noteq> []
                \<longrightarrow> get_retry_count (joinpath RETRY_FOLDER (name q)) = Inr (c + 1))"
  proof -
    obtain w' where w': "process_file run p w = (Inr (), w')"
        "files w' = insert ?n (files w - {p})"
      using pf by blast
    have fi: "case split (stem p) ''__retry'' of
                Inl e \<Rightarrow> False
              | Inr parts \<Rightarrow> first_item parts = Inr ?base"
      using first_item_split [where s = "stem p" and base = ?base] by simp
    show ?thesis
      using q w' nn reread in_parents_join [OF nq, of RETRY_FOLDER] fi by blast
  qed
next
  assume a: "name x \<noteq> [] \<and> \<not> contains ''__retry'' (stem x) \<and>
    \<not> (2 \<le> length (name x) \<and> last (name x) = CHR ''.'') \<and> k < 3 \<and>
    name p = (if k = 0 then name x else stem x @ ''__retry'' @ py_str (int k) @ suffix_of x) \<and>
    p \<in> files w \<and> run p = Inr result \<and> returncode result \<noteq> 0"
  then have ok: "\<not> (2 \<le> length (name x) \<and> last (name x) = CHR ''.'')" by blast
  let ?y = "if k = 0 then x else retry_named x (int k)"
  have ny: "name p = name ?y" using a by (simp add: name_def)
  then have same: "stem p = stem ?y" "suffix_of p = suffix_of ?y"
      "get_retry_count p = get_retry_count ?y"
    using same_name_same_parts [of p ?y] by blast+
  have np: "name p \<noteq> []" using a ny by (auto simp: name_def)
  have fresh0: "get_retry_count x = Inr 0" using a by (simp add: get_retry_count_eq)
  have cnt: "get_retry_count p = Inr (int k)"
  proof (cases "k = 0")
    case True
    then show ?thesis using same(3) fresh0 by simp
  next
    case False
    then show ?thesis using same(3) count_retry_named [OF ok, of "int k"] by simp
  qed
  have sfx: "suffix_of p = suffix_of x"
  proof (cases "k = 0")
    case True
    then show ?thesis using same(2) by simp
  next
    case False
    then show ?thesis using same(2) stem_retry_named [OF ok, of "int k"] by simp
  qed
  have base: "hd (split_from ''__retry'' [] (stem p)) = stem x"
  proof (cases "k = 0")
    case True
    then show ?thesis using same(1) a by (simp add: split_from_no_sep)
  next
    case False
    have "split_from ''__retry'' [] (stem (retry_named x (int k))) = [stem x, py_str (int k)]"
      using ok a by (intro split_retry_named) blast+
    then show ?thesis using same(1) False by simp
  qed
  obtain q where q: "increment_retry p = Inr q"
      "name q = hd (split_from ''__retry'' [] (stem p)) @ ''__retry'' @ py_str (int k + 1) @ suffix_of p"
    using increment_retry_name [OF np cnt] by blast
  let ?n = "joinpath RETRY_FOLDER (name q)"
  have "int k < MAX_RETRIES" using a by (simp add: MAX_RETRIES_def)
  then have "process_file run p w =
     (Inr (), print (MovedToRetry ?n)
                ((print (Stderr (stderr result)) (print (Failed (int k + 1)) (print Running w)))
                   \<lparr>files := insert ?n (files w - {p})\<rparr>))"
    using a q(1) cnt process_file_retry [of run p result w "int k" q] by blast
  then have "fst (process_file run p w) = Inr () \<and>
      files (snd (process_file run p w)) = insert ?n (files w - {p})"
    by (simp add: print_def)
  moreover have "name q = stem x @ ''__retry'' @ py_str (int k + 1) @ suffix_of x"
    using q(2) base sfx by simp
  ultimately show "fst (process_file run p w) = Inr ()"
    and "files (snd (process_file run p w)) =
      insert (joinpath RETRY_FOLDER (stem x @ ''__retry'' @ py_str (int k + 1) @ suffix_of x))
        (files w - {p})"
    by simp_all
next
  show "MAX_RETRIES = 3" by (simp add: MAX_RETRIES_def)
  show "py_str 1 = ''1''" by code_simp
  show "py_str 2 = ''2''" by code_simp
  show "py_str 3 = ''3''" by code_simp
next
  assume "is_image_file x"
  then have "suffix_of x \<noteq> []" using image_has_name by blast
  then show "\<not> (2 \<le> length (name x) \<and> last (name x) = CHR ''.'')"
    by (rule suffix_no_trailing_dot)
qed

theorem failure_moves_to_retry_witness:
  "joinpath WATCH_FOLDER ''x__retry2.jpg'' \<in> files (folder_with ''x__retry2.jpg'') \<and>
   name (joinpath WATCH_FOLDER ''x__retry2.jpg'') \<noteq> [] \<and>
   run_fail (joinpath WATCH_FOLDER ''x__retry2.jpg'') = Inr \<lparr>returncode = 1, stderr = ''failed''\<rparr> \<and>
   returncode \<lparr>returncode = 1, stderr = ''failed''\<rparr> \<noteq> 0 \<and>
   get_retry_count (joinpath WATCH_FOLDER ''x__retry2.jpg'') = Inr 2 \<and> 2 < MAX_RETRIES \<and>
   suffix_of (joinpath WATCH_FOLDER ''x__retry2.jpg'') \<noteq> [] \<and>
   increment_retry (joinpath WATCH_FOLDER ''x__retry2.jpg'') =
     Inr (joinpath WATCH_FOLDER ''x__retry3.jpg'') \<and>
   get_retry_count (joinpath RETRY_FOLDER ''x__retry3.jpg'') = Inr 3 \<and>
   name (joinpath WATCH_FOLDER ''x.jpg'') \<noteq> [] \<and>
   \<not> contains ''__retry'' (stem (joinpath WATCH_FOLDER ''x.jpg'')) \<and>
   \<not> (2 \<le> length (name (joinpath WATCH_FOLDER ''x.jpg'')) \<and>
      last (name (joinpath WATCH_FOLDER ''x.jpg'')) = CHR ''.'') \<and>
   files (snd (process_file run_fail (joinpath WATCH_FOLDER ''x.jpg'') (folder_with ''x.jpg''))) =
     {joinpath RETRY_FOLDER ''x__retry1.jpg''} \<and>
   files (snd (process_file run_fail (joinpath WATCH_FOLDER ''x__retry1.jpg'')
                 (folder_with ''x__retry1.jpg''))) =
     {joinpath RETRY_FOLDER ''x__retry2.jpg''} \<and>
   files (snd (process_file run_fail (joinpath WATCH_FOLDER ''x__retry2.jpg'')
                 (folder_with ''x__retry2.jpg''))) =
     {joinpath RETRY_FOLDER ''x__retry3.jpg''}"
proof -
  let ?x = "joinpath WATCH_FOLDER ''x.jpg''"
  let ?p1 = "joinpath WATCH_FOLDER ''x__retry1.jpg''"
  let ?p2 = "joinpath WATCH_FOLDER ''x__retry2.jpg''"
  let ?r = "\<lparr>returncode = 1, stderr = ''failed''\<rparr>"
  have here: "?x \<in> files (folder_with ''x.jpg'')" "?p1 \<in> files (folder_with ''x__retry1.jpg'')"
    "?p2 \<in> files (folder_with ''x__retry2.jpg'')"
    by (simp_all add: folder_with_def)
  have n2: "name ?p2 \<noteq> []" by code_simp
  have fails: "run_fail p = Inr ?r" for p by (simp add: run_fail_def)
  have nz: "returncode ?r \<noteq> 0" by simp
  have c2: "get_retry_count ?p2 = Inr 2" by code_simp
  have lt: "2 < MAX_RETRIES" by (simp add: MAX_RETRIES_def)
  have s2: "suffix_of ?p2 \<noteq> []" by code_simp
  have i2: "increment_retry ?p2 = Inr (joinpath WATCH_FOLDER ''x__retry3.jpg'')" by code_simp
  have nm3: "name (joinpath WATCH_FOLDER ''x__retry3.jpg'') = ''x__retry3.jpg''" by code_simp
  have nx: "name ?x \<noteq> []" by code_simp
  have fresh: "\<not> contains ''__retry'' (stem ?x)" by code_simp
  have dot: "\<not> (2 \<le> length (name ?x) \<and> last (name ?x) = CHR ''.'')" by code_simp
  have k0: "(0::nat) < 3" and k1: "(1::nat) < 3" and k2: "(2::nat) < 3" by simp_all
  have nm0: "name ?x =
      (if (0::nat) = 0 then name ?x else stem ?x @ ''__retry'' @ py_str (int 0) @ suffix_of ?x)"
    by simp
  have nm1: "name ?p1 =
      (if (1::nat) = 0 then name ?x else stem ?x @ ''__retry'' @ py_str (int 1) @ suffix_of ?x)"
    by code_simp
  have nm2: "name ?p2 =
      (if (2::nat) = 0 then name ?x else stem ?x @ ''__retry'' @ py_str (int 2) @ suffix_of ?x)"
    by code_simp
  have t1: "insert (joinpath RETRY_FOLDER (stem ?x @ ''__retry'' @ py_str (int 0 + 1) @ suffix_of ?x))
      (files (folder_with ''x.jpg'') - {?x}) = {joinpath RETRY_FOLDER ''x__retry1.jpg''}"
    by code_simp
  have t2: "insert (joinpath RETRY_FOLDER (stem ?x @ ''__retry'' @ py_str (int 1 + 1) @ suffix_of ?x))
      (files (folder_with ''x__retry1.jpg'') - {?p1}) = {joinpath RETRY_FOLDER ''x__retry2.jpg''}"
    by code_simp
  have t3: "insert (joinpath RETRY_FOLDER (stem ?x @ ''__retry'' @ py_str (int 2 + 1) @ suffix_of ?x))
      (files (folder_with ''x__retry2.jpg'') - {?p2}) = {joinpath RETRY_FOLDER ''x__retry3.jpg''}"
    by code_simp
  note step = failure_moves_to_retry
    [where run = run_fail and result = ?r and x = ?x, THEN conjunct2, THEN conjunct1, rule_format]
  have 1: "files (snd (process_file run_fail ?x (folder_with ''x.jpg''))) =
      {joinpath RETRY_FOLDER ''x__retry1.jpg''}"
    using step [where k = 0 and p = ?x and w = "folder_with ''x.jpg''",
        OF conjI [OF nx conjI [OF fresh conjI [OF dot conjI [OF k0 conjI [OF nm0
          conjI [OF here(1) conjI [OF fails nz]]]]]]], THEN conjunct2]
    unfolding t1 .
  have 2: "files (snd (process_file run_fail ?p1 (folder_with ''x__retry1.jpg''))) =
      {joinpath RETRY_FOLDER ''x__retry2.jpg''}"
    using step [where k = 1 and p = ?p1 and w = "folder_with ''x__retry1.jpg''",
        OF conjI [OF nx conjI [OF fresh conjI [OF dot conjI [OF k1 conjI [OF nm1
          conjI [OF here(2) conjI [OF fails nz]]]]]]], THEN conjunct2]
    unfolding t2 .
  have 3: "files (snd (process_file run_fail ?p2 (folder_with ''x__retry2.jpg''))) =
      {joinpath RETRY_FOLDER ''x__retry3.jpg''}"
    using step [where k = 2 and p = ?p2 and w = "folder_with ''x__retry2.jpg''",
        OF conjI [OF nx conjI [OF fresh conjI [OF dot conjI [OF k2 conjI [OF nm2
          conjI [OF here(3) conjI [OF fails nz]]]]]]], THEN conjunct2]
    unfolding t3 .
  note one = failure_moves_to_retry
    [where run = run_fail and result = ?r and p = ?p2 and w = "folder_with ''x__retry2.jpg''"
       and c = 2, THEN conjunct1, rule_format,
      OF conjI [OF here(3) conjI [OF n2 conjI [OF fails conjI [OF nz conjI [OF c2 lt]]]]]]
  obtain q where q: "increment_retry ?p2 = Inr q"
      "suffix_of ?p2 \<noteq> [] \<longrightarrow> get_retry_count (joinpath RETRY_FOLDER (name q)) = Inr (2 + 1)"
    using one by blast
  have "q = joinpath WATCH_FOLDER ''x__retry3.jpg''" using q(1) i2 by simp
  then have 4: "get_retry_count (joinpath RETRY_FOLDER ''x__retry3.jpg'') = Inr 3"
    using q(2) s2 nm3 by simp
  show ?thesis
    by (intro conjI here(3) n2 fails nz c2 lt s2 i2 4 nx fresh dot 1 2 3)
qed

text \<open>
  Claim C1. At a count of \<open>MAX_RETRIES\<close> or more a failure renames and moves nothing.
  The file then stays where the event found it. For an event that \<open>on_created\<close>
  accepts that place is never the retry folder: here \<open>x__retry3.jpg\<close> fails in the
  watched folder and remains there, while the line printed says that it remains in the
  retry folder.
\<close>

theorem stuck_file_stays_in_watched_root:
  "on_created steady run_fail (created ''x__retry3.jpg'') (folder_with ''x__retry3.jpg'') =
     (Inr (),
      \<lparr>files = {joinpath WATCH_FOLDER ''x__retry3.jpg''},
       out = [NewLabel ''x__retry3.jpg'', Running, Failed 4, Stderr ''failed'',
              MaxRetries ''x__retry3.jpg'']\<rparr>) \<and>
   \<not> in_parents RETRY_FOLDER (joinpath WATCH_FOLDER ''x__retry3.jpg'') \<and>
   joinpath RETRY_FOLDER ''x__retry3.jpg'' \<notin>
     files (snd (on_created steady run_fail (created ''x__retry3.jpg'')
                   (folder_with ''x__retry3.jpg'')))"
  by code_simp

end
